theory Spec2Isabelle
  imports Main "HOL-Library.Extended_Nat" "HOL-Library.Multiset"
begin

section \<open>Sliding-window rate limiter (middleware/rateLimit.ts)\<close>

text \<open>
  \<^verbatim>\<open>parseRateLimit\<close> matches the limit against \<^verbatim>\<open>/^(\d+)\/(second|minute)$/\<close>.
  The greedy \<^verbatim>\<open>\d+\<close> is followed by a slash, which is no digit, so the only possible
  match takes the maximal run of leading digits; the rest must be exactly
  \<^verbatim>\<open>/second\<close> or \<^verbatim>\<open>/minute\<close>. Times are \<^verbatim>\<open>Date.now()\<close> milliseconds, modelled as
  \<open>int\<close>.
\<close>

text \<open>
  The results of \<^verbatim>\<open>parseInt\<close> and of the arithmetic on them are Numbers, here natural
  numbers or \<^verbatim>\<open>Infinity\<close>. \<open>toNumber n\<close> is the Number nearest to \<open>n\<close>: \<open>n\<close> itself below
  \<open>2 ^ 53\<close>, beyond that \<open>n\<close> rounded to 53 significant bits, a tie to the even one, and
  \<^verbatim>\<open>Infinity\<close> when the rounded value reaches \<open>2 ^ 1024\<close>.
\<close>

fun bitLength :: "nat \<Rightarrow> nat" where
  "bitLength n = (if n = 0 then 0 else Suc (bitLength (n div 2)))"

declare bitLength.simps [simp del]

definition toNumber :: "nat \<Rightarrow> enat" where
  "toNumber n =
     (if n < 2 ^ 53 then enat n
      else (let e = bitLength n - 53;
                q = n div 2 ^ e;
                r = n mod 2 ^ e;
                q' = (if 2 ^ (e - 1) < r \<or> (r = 2 ^ (e - 1) \<and> odd q) then q + 1 else q)
            in if 2 ^ 1024 \<le> q' * 2 ^ e then \<infinity> else enat (q' * 2 ^ e)))"

definition isDigit :: "char \<Rightarrow> bool" where
  "isDigit c = (c \<in> set ''0123456789'')"

definition digitVal :: "char \<Rightarrow> nat" where
  "digitVal c = of_char c - 48"

text \<open>\<^verbatim>\<open>parseInt(ds, 10)\<close> on a non-empty string of decimal digits.\<close>

definition parseInt10 :: "string \<Rightarrow> enat" where
  "parseInt10 ds = toNumber (foldl (\<lambda>n c. 10 * n + digitVal c) 0 ds)"

definition parseRateLimit :: "string \<Rightarrow> enat \<times> int" where
  "parseRateLimit limit =
     (let ds = takeWhile isDigit limit; unit = dropWhile isDigit limit
      in if ds = [] \<or> \<not> (unit = ''/second'' \<or> unit = ''/minute'')
         then (10, 1000)
         else (parseInt10 ds, if unit = ''/second'' then 1000 else 60000))"

record ApiKey =
  key :: string
  name :: string
  rateLimit :: string
  enabled :: bool

text \<open>The \<^verbatim>\<open>X-RateLimit-*\<close> headers set on an admitted request.\<close>

record RateLimitHeaders =
  xLimit :: enat
  xRemaining :: enat
  xWindow :: string

text \<open>
  The middleware either calls \<^verbatim>\<open>next()\<close> (with headers, or with none when the request
  carries no API key) or answers 429 with a \<^verbatim>\<open>retryAfter\<close> in seconds.
\<close>

datatype RateLimitResponse = Next "RateLimitHeaders option" | TooManyRequests int

type_synonym rateLimitWindows = "string \<rightharpoonup> int list"

text \<open>\<^verbatim>\<open>Math.ceil(x / 1000)\<close> on an integer \<open>x\<close>.\<close>

definition ceilDiv1000 :: "int \<Rightarrow> int" where
  "ceilDiv1000 x = - ((- x) div 1000)"

text \<open>
  \<^verbatim>\<open>maxRequests - window.timestamps.length\<close>, computed where the length does not exceed
  \<open>maxRequests\<close>: the difference, rounded.
\<close>

definition minusNumber :: "enat \<Rightarrow> nat \<Rightarrow> enat" where
  "minusNumber x n = (case x of enat m \<Rightarrow> toNumber (m - n) | \<infinity> \<Rightarrow> \<infinity>)"

definition rateLimitMiddleware ::
  "rateLimitWindows \<Rightarrow> ApiKey option \<Rightarrow> int \<Rightarrow> RateLimitResponse \<times> rateLimitWindows" where
  "rateLimitMiddleware windows apiKey now =
     (case apiKey of
        None \<Rightarrow> (Next None, windows)
      | Some k \<Rightarrow>
          (let (maxRequests, windowMs) = parseRateLimit (rateLimit k);
               stored = (case windows (name k) of None \<Rightarrow> [] | Some w \<Rightarrow> w);
               timestamps = filter (\<lambda>ts. now - ts < windowMs) stored
           in if maxRequests \<le> enat (length timestamps) then
                (let oldestTs = (case timestamps of [] \<Rightarrow> now | t # _ \<Rightarrow> t);
                     retryAfter = ceilDiv1000 (oldestTs + windowMs - now)
                 in (TooManyRequests (max 1 retryAfter), windows(name k \<mapsto> timestamps)))
              else
                (let pushed = timestamps @ [now]
                 in (Next (Some \<lparr>xLimit = maxRequests,
                                  xRemaining = minusNumber maxRequests (length pushed),
                                  xWindow = (if windowMs = 1000 then ''1s'' else ''1m'')\<rparr>),
                     windows(name k \<mapsto> pushed)))))"

text \<open>Four admission checks of one caller, at the instants \<open>t1\<close>, \<open>t2\<close>, \<open>t3\<close>, \<open>t4\<close>.\<close>

definition fourChecks ::
  "rateLimitWindows \<Rightarrow> ApiKey \<Rightarrow> int \<Rightarrow> int \<Rightarrow> int \<Rightarrow> int \<Rightarrow> RateLimitResponse list" where
  "fourChecks w0 k t1 t2 t3 t4 =
     (let (r1, w1) = rateLimitMiddleware w0 (Some k) t1;
          (r2, w2) = rateLimitMiddleware w1 (Some k) t2;
          (r3, w3) = rateLimitMiddleware w2 (Some k) t3;
          (r4, w4) = rateLimitMiddleware w3 (Some k) t4
      in [r1, r2, r3, r4])"

definition admitted :: "RateLimitResponse \<Rightarrow> bool" where
  "admitted r = (case r of Next _ \<Rightarrow> True | TooManyRequests _ \<Rightarrow> False)"

definition storedTimestamps :: "rateLimitWindows \<Rightarrow> string \<Rightarrow> int list" where
  "storedTimestamps w n = (case w n of None \<Rightarrow> [] | Some ts \<Rightarrow> ts)"

section \<open>Sitemap resolver (services/sitemap.ts)\<close>

subsection \<open>The regular expressions, as matchers on the rest of the input\<close>

text \<open>
  Strings are lists of code units below 256. The expressions carry the \<^verbatim>\<open>i\<close> flag; the
  literals in them are ASCII, so only the ASCII letters fold. A matcher is applied to the
  input from some position on and yields the input after the match.
\<close>

definition lowerChar :: "char \<Rightarrow> char" where
  "lowerChar c = (if c \<in> set ''ABCDEFGHIJKLMNOPQRSTUVWXYZ''
                  then char_of (of_char c + (32::nat)) else c)"

text \<open>A literal (given in lower case) at the start of the input, ignoring case.\<close>

definition litCI :: "string \<Rightarrow> string \<Rightarrow> string option" where
  "litCI p s = (if map lowerChar (take (length p) s) = p then Some (drop (length p) s) else None)"

text \<open>
  \<^verbatim>\<open>[^>]*>\<close>: the class cannot consume the closing \<^verbatim>\<open>>\<close>, so the greedy star stops at
  the first one and backtracking finds no other match.
\<close>

definition untilGt :: "string \<Rightarrow> string option" where
  "untilGt s = (case dropWhile (\<lambda>c. c \<noteq> CHR ''>'') s of [] \<Rightarrow> None | _ # r \<Rightarrow> Some r)"

text \<open>
  \<^verbatim>\<open><name[^>]*>([^<]+)<\/name>\<close> at the start of the input: the captured text is the
  maximal, non-empty run without \<^verbatim>\<open><\<close>, and the closing tag must follow it directly.
\<close>

definition tagText :: "string \<Rightarrow> string \<Rightarrow> (string \<times> string) option" where
  "tagText nm s =
     (case litCI (''<'' @ nm) s of
        None \<Rightarrow> None
      | Some r1 \<Rightarrow>
          (case untilGt r1 of
             None \<Rightarrow> None
           | Some r2 \<Rightarrow>
               (let txt = takeWhile (\<lambda>c. c \<noteq> CHR ''<'') r2;
                    r3 = dropWhile (\<lambda>c. c \<noteq> CHR ''<'') r2
                in if txt = [] then None
                   else (case litCI (''</'' @ nm @ ''>'') r3 of
                           None \<Rightarrow> None
                         | Some r4 \<Rightarrow> Some (txt, r4)))))"

text \<open>
  \<^verbatim>\<open>exec\<close> tries the start positions from left to right; so does a lazy
  \<^verbatim>\<open>[\s\S]*?\<close> in front of the rest of an expression.
\<close>

fun search :: "(string \<Rightarrow> 'a option) \<Rightarrow> string \<Rightarrow> 'a option" where
  "search m [] = m []"
| "search m (c # cs) = (case m (c # cs) of Some r \<Rightarrow> Some r | None \<Rightarrow> search m cs)"

text \<open>\<^verbatim>\<open>([\s\S]*?)lit\<close>: the text before the first occurrence of the literal, and the rest.\<close>

fun splitAtCI :: "string \<Rightarrow> string \<Rightarrow> (string \<times> string) option" where
  "splitAtCI p [] = (case litCI p [] of Some r \<Rightarrow> Some ([], r) | None \<Rightarrow> None)"
| "splitAtCI p (c # cs) =
     (case litCI p (c # cs) of
        Some r \<Rightarrow> Some ([], r)
      | None \<Rightarrow> (case splitAtCI p cs of None \<Rightarrow> None | Some (b, a) \<Rightarrow> Some (c # b, a)))"

text \<open>
  \<^verbatim>\<open>String.prototype.trim\<close> strips white space and line terminators; below 256 these are
  the code units 9 to 13, the space and the no-break space U+00A0.
\<close>

definition isSpace :: "char \<Rightarrow> bool" where
  "isSpace c = (of_char c \<in> {9, 10, 11, 12, 13, 32, 160 :: nat})"

definition trim :: "string \<Rightarrow> string" where
  "trim s = rev (dropWhile isSpace (rev (dropWhile isSpace s)))"

text \<open>\<^verbatim>\<open>String.prototype.includes\<close> (case-sensitive).\<close>

fun includesStr :: "string \<Rightarrow> string \<Rightarrow> bool" where
  "includesStr [] p = (p = [])"
| "includesStr (c # cs) p = (take (length p) (c # cs) = p \<or> includesStr cs p)"

definition isSitemapIndex :: "string \<Rightarrow> bool" where
  "isSitemapIndex xml = (includesStr xml ''<sitemapindex'' \<or> includesStr xml '':sitemapindex'')"

text \<open>
  \<^verbatim>\<open>/<sitemap[^>]*>[\s\S]*?<loc[^>]*>([^<]+)<\/loc>[\s\S]*?<\/sitemap>/gi\<close> at the start
  of the input: after the opening tag, the first position where a \<^verbatim>\<open>loc\<close> element matches
  and a closing \<^verbatim>\<open></sitemap>\<close> follows it somewhere.
\<close>

definition sitemapAt :: "string \<Rightarrow> (string \<times> string) option" where
  "sitemapAt s =
     (case litCI ''<sitemap'' s of
        None \<Rightarrow> None
      | Some r1 \<Rightarrow>
          (case untilGt r1 of
             None \<Rightarrow> None
           | Some r2 \<Rightarrow>
               search (\<lambda>u. case tagText ''loc'' u of
                              None \<Rightarrow> None
                            | Some (captured, r3) \<Rightarrow>
                                (case search (litCI ''</sitemap>'') r3 of
                                   None \<Rightarrow> None
                                 | Some r4 \<Rightarrow> Some (captured, r4))) r2))"

text \<open>\<^verbatim>\<open>/<url[^>]*>([\s\S]*?)<\/url>/gi\<close> at the start of the input.\<close>

definition urlAt :: "string \<Rightarrow> (string \<times> string) option" where
  "urlAt s =
     (case litCI ''<url'' s of
        None \<Rightarrow> None
      | Some r1 \<Rightarrow> (case untilGt r1 of None \<Rightarrow> None | Some r2 \<Rightarrow> splitAtCI ''</url>'' r2))"

lemma litCI_length: "litCI p s = Some r \<Longrightarrow> length r + length p = length s"
  by (auto simp: litCI_def split: if_splits dest!: arg_cong [where f = length])

lemma untilGt_length: "untilGt s = Some r \<Longrightarrow> length r < length s"
proof -
  assume a: "untilGt s = Some r"
  then obtain c where "dropWhile (\<lambda>c. c \<noteq> CHR ''>'') s = c # r"
    by (auto simp: untilGt_def split: list.splits)
  then have "Suc (length r) = length (dropWhile (\<lambda>c. c \<noteq> CHR ''>'') s)"
    by simp
  also have "\<dots> \<le> length s"
    by (rule length_dropWhile_le)
  finally show ?thesis by simp
qed

lemma search_length:
  assumes "\<And>u c r. m u = Some (c, r) \<Longrightarrow> length r < length u"
    and "search m s = Some (c, r)"
  shows "length r < length s"
  using assms(2)
proof (induction s)
  case Nil
  then show ?case using assms(1) [of "[]" c r] by simp
next
  case (Cons a s)
  then show ?case
    using assms(1) [of "a # s" c r] by (auto split: option.splits)
qed

lemma search_le:
  assumes "\<And>u r. m u = Some r \<Longrightarrow> length r \<le> length u"
    and "search m s = Some r"
  shows "length r \<le> length s"
  using assms(2)
proof (induction s)
  case Nil
  then show ?case using assms(1) [of "[]" r] by simp
next
  case (Cons a s)
  then show ?case
    using assms(1) [of "a # s" r] by (auto split: option.splits)
qed

lemma splitAtCI_length: "splitAtCI p s = Some (b, a) \<Longrightarrow> length a \<le> length s"
proof (induction s arbitrary: b)
  case Nil
  then show ?case by (auto split: option.splits dest: litCI_length)
next
  case (Cons c cs)
  then show ?case by (fastforce split: option.splits dest: litCI_length)
qed

lemma tagText_length: "tagText nm s = Some (t, r) \<Longrightarrow> length r < length s"
proof -
  assume a: "tagText nm s = Some (t, r)"
  then obtain r1 r2 where r1: "litCI (''<'' @ nm) s = Some r1" and r2: "untilGt r1 = Some r2"
    and r4: "litCI (''</'' @ nm @ ''>'') (dropWhile (\<lambda>c. c \<noteq> CHR ''<'') r2) = Some r"
    by (auto simp: tagText_def Let_def split: option.splits if_splits)
  have "length r \<le> length (dropWhile (\<lambda>c. c \<noteq> CHR ''<'') r2)"
    using litCI_length [OF r4] by simp
  also have "\<dots> \<le> length r2" by (rule length_dropWhile_le)
  also have "\<dots> < length r1" by (rule untilGt_length [OF r2])
  also have "\<dots> \<le> length s" using litCI_length [OF r1] by simp
  finally show ?thesis .
qed

lemma sitemapAt_length: "sitemapAt s = Some (c, r) \<Longrightarrow> length r < length s"
proof -
  assume a: "sitemapAt s = Some (c, r)"
  then obtain r1 r2 where r1: "litCI ''<sitemap'' s = Some r1" and r2: "untilGt r1 = Some r2"
    and r3: "search (\<lambda>u. case tagText ''loc'' u of
                              None \<Rightarrow> None
                            | Some (captured, r3) \<Rightarrow>
                                (case search (litCI ''</sitemap>'') r3 of
                                   None \<Rightarrow> None
                                 | Some r4 \<Rightarrow> Some (captured, r4))) r2 = Some (c, r)"
    by (auto simp: sitemapAt_def split: option.splits)
  have "length r < length r2"
  proof (rule search_length [OF _ r3])
    fix u c' r'
    assume "(case tagText ''loc'' u of
               None \<Rightarrow> None
             | Some (captured, r3) \<Rightarrow>
                 (case search (litCI ''</sitemap>'') r3 of
                    None \<Rightarrow> None
                  | Some r4 \<Rightarrow> Some (captured, r4))) = Some (c', r')"
    then obtain r3' where t: "tagText ''loc'' u = Some (c', r3')"
      and s: "search (litCI ''</sitemap>'') r3' = Some r'"
      by (auto split: option.splits)
    have "length r' \<le> length r3'"
      by (rule search_le [OF _ s]) (auto dest: litCI_length)
    with tagText_length [OF t] show "length r' < length u" by simp
  qed
  also have "\<dots> < length r1" by (rule untilGt_length [OF r2])
  also have "\<dots> \<le> length s" using litCI_length [OF r1] by simp
  finally show ?thesis .
qed

lemma urlAt_length: "urlAt s = Some (b, r) \<Longrightarrow> length r < length s"
proof -
  assume a: "urlAt s = Some (b, r)"
  then obtain r1 r2 where r1: "litCI ''<url'' s = Some r1" and r2: "untilGt r1 = Some r2"
    and r3: "splitAtCI ''</url>'' r2 = Some (b, r)"
    by (auto simp: urlAt_def split: option.splits)
  have "length r \<le> length r2" by (rule splitAtCI_length [OF r3])
  also have "\<dots> < length r1" by (rule untilGt_length [OF r2])
  also have "\<dots> \<le> length s" using litCI_length [OF r1] by simp
  finally show ?thesis .
qed

lemma search_sitemapAt_length: "search sitemapAt xml = Some (c, r) \<Longrightarrow> length r < length xml"
  using search_length [of sitemapAt xml c r] sitemapAt_length by blast

lemma search_urlAt_length: "search urlAt xml = Some (b, r) \<Longrightarrow> length r < length xml"
  using search_length [of urlAt xml b r] urlAt_length by blast

text \<open>
  The \<^verbatim>\<open>while ((match = regex.exec(xml)) !== null)\<close> loops: every match is non-empty,
  so \<^verbatim>\<open>lastIndex\<close> advances and the loop ends.
\<close>

function parseSitemapIndex :: "string \<Rightarrow> string list" where
  "parseSitemapIndex xml =
     (case search sitemapAt xml of
        None \<Rightarrow> []
      | Some (captured, rest) \<Rightarrow>
          (let url = trim captured
           in (if url = [] then [] else [url]) @ parseSitemapIndex rest))"
  by pat_completeness auto
termination
  by (relation "measure length") (auto dest: search_sitemapAt_length)

declare parseSitemapIndex.simps [simp del]

record SitemapUrl =
  loc :: string
  lastmod :: "string option"
  priority :: "string option"

text \<open>
  One \<^verbatim>\<open><url>\<close> block. The \<^verbatim>\<open>priority\<close> field holds the trimmed text the source hands
  to \<^verbatim>\<open>parseFloat\<close>; the floating-point value itself is not modelled.
\<close>

definition parseUrlBlock :: "string \<Rightarrow> SitemapUrl list" where
  "parseUrlBlock urlBlock =
     (if urlBlock = [] then []
      else (case search (tagText ''loc'') urlBlock of
              None \<Rightarrow> []
            | Some (locText, _) \<Rightarrow>
                (if trim locText = [] then []
                 else [\<lparr>loc = trim locText,
                        lastmod = map_option (\<lambda>(t, _). trim t) (search (tagText ''lastmod'') urlBlock),
                        priority = map_option (\<lambda>(t, _). trim t)
                                     (search (tagText ''priority'') urlBlock)\<rparr>])))"

function parseSitemapUrls :: "string \<Rightarrow> SitemapUrl list" where
  "parseSitemapUrls xml =
     (case search urlAt xml of
        None \<Rightarrow> []
      | Some (urlBlock, rest) \<Rightarrow> parseUrlBlock urlBlock @ parseSitemapUrls rest)"
  by pat_completeness auto
termination
  by (relation "measure length") (auto dest: search_urlAt_length)

declare parseSitemapUrls.simps [simp del]

subsection \<open>collectAllUrls\<close>

record SitemapResult =
  urls :: "SitemapUrl list"
  errors :: "string list"

text \<open>
  \<^verbatim>\<open>fetchUrl\<close> is the network: a parameter that maps a URL to the body of the response
  or to the message of the \<^verbatim>\<open>Error\<close> it throws (a failed request, a status that is not
  ok, the timeout).
\<close>

type_synonym fetchUrl = "string \<Rightarrow> string + string"

definition MAX_SITEMAP_DEPTH :: nat where
  "MAX_SITEMAP_DEPTH = 3"

text \<open>\<^verbatim>\<open>xs.slice(0, n)\<close> for an integer \<open>n\<close>: a negative end counts from the end.\<close>

definition slice0 :: "'a list \<Rightarrow> int \<Rightarrow> 'a list" where
  "slice0 xs n = (if n < 0 then take (nat (int (length xs) + n)) xs else take (nat n) xs)"

definition depthError :: "string \<Rightarrow> string" where
  "depthError sitemapUrl = ''Max sitemap depth (3) reached at '' @ sitemapUrl"

definition fetchError :: "string \<Rightarrow> string \<Rightarrow> string" where
  "fetchError sitemapUrl errorMessage = ''Failed to fetch '' @ sitemapUrl @ '': '' @ errorMessage"

text \<open>
  \<^verbatim>\<open>collectAllUrls\<close> and the \<^verbatim>\<open>for (const nestedUrl of nestedUrls)\<close> loop of its index
  branch, which carries the \<^verbatim>\<open>result\<close> built so far. \<^verbatim>\<open>maxPages\<close> is an integer, as the
  default 100 is. Inside
  the \<^verbatim>\<open>try\<close> only \<^verbatim>\<open>fetchUrl\<close> throws: the parsers are total and a nested call returns
  its failures in \<^verbatim>\<open>errors\<close>.
\<close>

function collectAllUrls :: "fetchUrl \<Rightarrow> string \<Rightarrow> int \<Rightarrow> nat \<Rightarrow> SitemapResult"
  and collectNested :: "fetchUrl \<Rightarrow> string list \<Rightarrow> int \<Rightarrow> nat \<Rightarrow> SitemapResult \<Rightarrow> SitemapResult"
  where
  "collectAllUrls fetch sitemapUrl maxPages depth =
     (if MAX_SITEMAP_DEPTH \<le> depth then \<lparr>urls = [], errors = [depthError sitemapUrl]\<rparr>
      else (case fetch sitemapUrl of
              Inl errorMessage \<Rightarrow> \<lparr>urls = [], errors = [fetchError sitemapUrl errorMessage]\<rparr>
            | Inr xml \<Rightarrow>
                (if isSitemapIndex xml
                 then collectNested fetch (parseSitemapIndex xml) maxPages depth
                        \<lparr>urls = [], errors = []\<rparr>
                 else \<lparr>urls = slice0 (parseSitemapUrls xml) maxPages, errors = []\<rparr>)))"
| "collectNested fetch [] maxPages depth result = result"
| "collectNested fetch (nestedUrl # nestedUrls) maxPages depth result =
     (if maxPages \<le> int (length (urls result)) then result
      else (let nestedResult =
                  collectAllUrls fetch nestedUrl (maxPages - int (length (urls result))) (depth + 1)
            in collectNested fetch nestedUrls maxPages depth
                 \<lparr>urls = urls result @ urls nestedResult,
                  errors = errors result @ errors nestedResult\<rparr>))"
  by pat_completeness auto
termination
  by (relation "measures
        [\<lambda>x. case x of Inl (f, u, m, d) \<Rightarrow> 2 * (3 - d) | Inr (f, ns, m, d, r) \<Rightarrow> 2 * (2 - d) + 1,
         \<lambda>x. case x of Inl (f, u, m, d) \<Rightarrow> 0 | Inr (f, ns, m, d, r) \<Rightarrow> length ns]")
     (auto simp: MAX_SITEMAP_DEPTH_def)

declare collectAllUrls.simps [simp del]

text \<open>
  A small site for concrete runs: the index \<^verbatim>\<open>i0\<close> lists a sitemap that cannot be
  fetched, the index \<^verbatim>\<open>i1\<close> and the leaf \<^verbatim>\<open>l0\<close>; \<^verbatim>\<open>i1\<close> lists the index \<^verbatim>\<open>i2\<close>, which
  lists the leaf \<^verbatim>\<open>l3\<close>. The leaves \<^verbatim>\<open>l1\<close> and \<^verbatim>\<open>l2\<close> hold a \<^verbatim>\<open>loc\<close> that is a path,
  not an absolute URL.
\<close>

definition demoSite :: fetchUrl where
  "demoSite u =
     (if u = ''i0'' then Inr (''<sitemapindex><sitemap><loc>bad</loc></sitemap>''
                             @ ''<sitemap><loc>i1</loc></sitemap>''
                             @ ''<sitemap><loc>l0</loc></sitemap></sitemapindex>'')
      else if u = ''i1'' then Inr ''<sitemapindex><sitemap><loc>i2</loc></sitemap></sitemapindex>''
      else if u = ''i2'' then Inr ''<sitemapindex><sitemap><loc>l3</loc></sitemap></sitemapindex>''
      else if u = ''l3'' then Inr ''<urlset><url><loc>https://a.io/deep</loc></url></urlset>''
      else if u = ''l0'' then Inr (''<urlset><url><loc>https://a.io/b</loc></url>''
                                  @ ''<url><loc>https://a.io/a</loc></url>''
                                  @ ''<url><loc>https://a.io/c</loc></url></urlset>'')
      else if u = ''l1'' then Inr ''<urlset><url><loc>/about</loc></url></urlset>''
      else if u = ''l2'' then Inr (''<urlset><url><loc>https://a.io/x</loc></url>''
                                  @ ''<url><loc>/about</loc></url></urlset>'')
      else Inl ''HTTP 404: Not Found'')"

subsection \<open>sortUrlsByPath and the submission of a site capture\<close>

text \<open>
  Two functions of the platform are parameters of the model. \<open>pathname\<close> stands for
  \<^verbatim>\<open>new URL(s).pathname\<close>: it is \<open>None\<close> where the constructor throws
  \<^verbatim>\<open>TypeError: Invalid URL\<close>, as it does for every string that is not an absolute URL.
  \<open>localeCompare\<close> stands for \<^verbatim>\<open>String.prototype.localeCompare\<close>.
\<close>

type_synonym urlPathname = "string \<Rightarrow> string option"
type_synonym localeCompare = "string \<Rightarrow> string \<Rightarrow> int"

datatype jsError = TypeError string

text \<open>The comparator: it parses the \<^verbatim>\<open>loc\<close> of \<open>a\<close>, then that of \<open>b\<close>.\<close>

definition comparePaths ::
  "urlPathname \<Rightarrow> localeCompare \<Rightarrow> SitemapUrl \<Rightarrow> SitemapUrl \<Rightarrow> jsError + int" where
  "comparePaths pathname localeCompare a b =
     (case pathname (loc a) of
        None \<Rightarrow> Inl (TypeError ''Invalid URL'')
      | Some pathA \<Rightarrow>
          (case pathname (loc b) of
             None \<Rightarrow> Inl (TypeError ''Invalid URL'')
           | Some pathB \<Rightarrow> Inr (localeCompare pathA pathB)))"

text \<open>
  \<^verbatim>\<open>Array.prototype.sort\<close> with a comparator that may throw: a stable sort that stops at the
  first call that throws. It is written as an insertion sort; like the engine's sort it makes
  no call on an array of fewer than two elements, and on a longer array every element takes
  part in a call.
\<close>

fun insertSorted :: "('a \<Rightarrow> 'a \<Rightarrow> 'e + int) \<Rightarrow> 'a \<Rightarrow> 'a list \<Rightarrow> 'e + 'a list" where
  "insertSorted cmp x [] = Inr [x]"
| "insertSorted cmp x (y # ys) =
     (case cmp x y of
        Inl e \<Rightarrow> Inl e
      | Inr c \<Rightarrow>
          (if c \<le> 0 then Inr (x # y # ys)
           else (case insertSorted cmp x ys of Inl e \<Rightarrow> Inl e | Inr zs \<Rightarrow> Inr (y # zs))))"

fun arraySort :: "('a \<Rightarrow> 'a \<Rightarrow> 'e + int) \<Rightarrow> 'a list \<Rightarrow> 'e + 'a list" where
  "arraySort cmp [] = Inr []"
| "arraySort cmp (x # xs) =
     (case arraySort cmp xs of Inl e \<Rightarrow> Inl e | Inr ys \<Rightarrow> insertSorted cmp x ys)"

definition sortUrlsByPath ::
  "urlPathname \<Rightarrow> localeCompare \<Rightarrow> SitemapUrl list \<Rightarrow> jsError + SitemapUrl list" where
  "sortUrlsByPath pathname localeCompare urlList =
     arraySort (comparePaths pathname localeCompare) urlList"

text \<open>
  The handler of \<^verbatim>\<open>POST /site\<close> (routes/site.ts) after validation: \<open>discovered\<close> is the
  outcome of \<^verbatim>\<open>discoverSitemapUrl\<close>, \<open>created\<close> tells whether \<^verbatim>\<open>createSiteCapture\<close>
  succeeds. Whatever is thrown after the discovery is caught by the outer \<^verbatim>\<open>try\<close> and
  answered with status 500. The 202 answer carries \<^verbatim>\<open>totalPages\<close> and hands the sorted
  list to the background task.
\<close>

datatype siteResponse =
    SitemapNotFound400 string
  | EmptySitemap400 "string list"
  | Accepted202 nat "SitemapUrl list"
  | InternalServerError500

definition postSite ::
  "fetchUrl \<Rightarrow> urlPathname \<Rightarrow> localeCompare \<Rightarrow> string + string \<Rightarrow> int \<Rightarrow> bool \<Rightarrow> siteResponse"
  where
  "postSite fetch pathname localeCompare discovered maxPages created =
     (case discovered of
        Inl errorMessage \<Rightarrow> SitemapNotFound400 errorMessage
      | Inr sitemapUrl \<Rightarrow>
          (let sitemapResult = collectAllUrls fetch sitemapUrl maxPages 0
           in if urls sitemapResult = [] then EmptySitemap400 (errors sitemapResult)
              else (case sortUrlsByPath pathname localeCompare (urls sitemapResult) of
                      Inl e \<Rightarrow> InternalServerError500
                    | Inr sortedUrls \<Rightarrow>
                        (if created then Accepted202 (length sortedUrls) sortedUrls
                         else InternalServerError500))))"

text \<open>
  Sample instances of the two parameters for concrete runs. \<open>demoPathname\<close> accepts the
  strings that start with \<^verbatim>\<open>http://\<close> or \<^verbatim>\<open>https://\<close> and a non-empty host, and yields
  the text from the first slash after the host up to a \<^verbatim>\<open>?\<close> or \<^verbatim>\<open>#\<close>; it rejects every
  string without a scheme, as the platform does. \<open>demoCompare\<close> orders by code units.
\<close>

definition demoPathname :: urlPathname where
  "demoPathname s =
     (let rest = (if take 8 s = ''https://'' then Some (drop 8 s)
                  else if take 7 s = ''http://'' then Some (drop 7 s) else None)
      in case rest of
           None \<Rightarrow> None
         | Some r \<Rightarrow>
             (let host = takeWhile (\<lambda>c. c \<notin> set ''/?#'') r;
                  path = takeWhile (\<lambda>c. c \<notin> set ''?#'') (dropWhile (\<lambda>c. c \<notin> set ''/?#'') r)
              in if host = [] then None else Some (if path = [] then ''/'' else path)))"

fun demoCompare :: localeCompare where
  "demoCompare [] [] = 0"
| "demoCompare [] (b # bs) = - 1"
| "demoCompare (a # as) [] = 1"
| "demoCompare (a # as) (b # bs) =
     (if (of_char a :: nat) < of_char b then - 1
      else if (of_char b :: nat) < of_char a then 1
      else demoCompare as bs)"

section \<open>Expiry sweeper (jobs/cleanup.ts, services/database.ts)\<close>

datatype ScreenshotStatus = ShotPending | ShotCompleted | ShotFailed | ShotExpired

text \<open>
  A row of the \<^verbatim>\<open>screenshots\<close> table, with the columns the sweeper reads or writes.
  \<^verbatim>\<open>id\<close> is the primary key. Instants are integers.
\<close>

record Screenshot =
  screenshotId :: string
  screenshotUrl :: string
  bucket :: string
  storageKey :: string
  expiresAt :: int
  status :: ScreenshotStatus

text \<open>The metadata table, in the order the database returns its rows, and the blob store.\<close>

record Stores =
  screenshots :: "Screenshot list"
  blobs :: "(string \<times> string) list"
  deletedCount :: nat
  errorCount :: nat

definition screenshotIds :: "Stores \<Rightarrow> string set" where
  "screenshotIds st = set (map screenshotId (screenshots st))"

text \<open>
  \<^verbatim>\<open>SELECT * FROM screenshots WHERE status = 'completed' AND expires_at < NOW() LIMIT 100\<close>
\<close>

definition getExpiredScreenshots :: "int \<Rightarrow> Screenshot list \<Rightarrow> Screenshot list" where
  "getExpiredScreenshots now rows =
     take 100 (filter (\<lambda>r. status r = ShotCompleted \<and> expiresAt r < now) rows)"

text \<open>\<^verbatim>\<open>UPDATE screenshots SET status = $1 WHERE id = $2\<close>\<close>

definition updateScreenshotStatus ::
  "string \<Rightarrow> ScreenshotStatus \<Rightarrow> Screenshot list \<Rightarrow> Screenshot list" where
  "updateScreenshotStatus i st rows =
     map (\<lambda>r. if screenshotId r = i then r\<lparr>status := st\<rparr> else r) rows"

text \<open>\<^verbatim>\<open>DELETE FROM screenshots WHERE id = $1\<close>\<close>

definition deleteScreenshotRecord :: "string \<Rightarrow> Screenshot list \<Rightarrow> Screenshot list" where
  "deleteScreenshotRecord i rows = filter (\<lambda>r. screenshotId r \<noteq> i) rows"

text \<open>\<^verbatim>\<open>DeleteObjectCommand\<close> on the blob store.\<close>

definition deleteScreenshot :: "string \<Rightarrow> string \<Rightarrow> (string \<times> string) list \<Rightarrow> (string \<times> string) list" where
  "deleteScreenshot b k objects = filter (\<lambda>obj. obj \<noteq> (b, k)) objects"

text \<open>
  The faults of the two stores during one run: which blob deletion, record deletion or status
  update throws. Each artifact of a batch is handled once, so a fault is a property of the
  artifact.
\<close>

record Faults =
  blobDeleteFails :: "Screenshot \<Rightarrow> bool"
  recordDeleteFails :: "Screenshot \<Rightarrow> bool"
  statusUpdateFails :: "Screenshot \<Rightarrow> bool"

text \<open>
  The \<^verbatim>\<open>catch\<close> block of the loop body: count the error, try to mark the row expired, and
  only log when that update throws as well.
\<close>

definition markExpired :: "Faults \<Rightarrow> Screenshot \<Rightarrow> Stores \<Rightarrow> Stores" where
  "markExpired faults screenshot st =
     (let st1 = st\<lparr>errorCount := errorCount st + 1\<rparr>
      in if statusUpdateFails faults screenshot then st1
         else st1\<lparr>screenshots :=
                    updateScreenshotStatus (screenshotId screenshot) ShotExpired (screenshots st1)\<rparr>)"

text \<open>The body of \<^verbatim>\<open>for (const screenshot of expiredScreenshots)\<close> in \<^verbatim>\<open>runCleanup\<close>.\<close>

definition cleanupScreenshot :: "Faults \<Rightarrow> Stores \<Rightarrow> Screenshot \<Rightarrow> Stores" where
  "cleanupScreenshot faults st screenshot =
     (if blobDeleteFails faults screenshot then markExpired faults screenshot st
      else (let st1 = st\<lparr>blobs := deleteScreenshot (bucket screenshot) (storageKey screenshot)
                                      (blobs st)\<rparr>
            in if recordDeleteFails faults screenshot then markExpired faults screenshot st1
               else st1\<lparr>screenshots :=
                          deleteScreenshotRecord (screenshotId screenshot) (screenshots st1),
                        deletedCount := deletedCount st1 + 1\<rparr>))"

text \<open>
  The screenshot phase of one \<^verbatim>\<open>runCleanup\<close>: select the batch, then run the loop over it.
  The counters are local to the run.
\<close>

definition cleanupExpiredScreenshots :: "Faults \<Rightarrow> int \<Rightarrow> Stores \<Rightarrow> Stores" where
  "cleanupExpiredScreenshots faults now st =
     foldl (cleanupScreenshot faults) (st\<lparr>deletedCount := 0, errorCount := 0\<rparr>)
       (getExpiredScreenshots now (screenshots st))"

text \<open>A store with three expired artifacts and one that is still fresh, for concrete runs.\<close>

definition demoShot :: "string \<Rightarrow> int \<Rightarrow> Screenshot" where
  "demoShot i expiry =
     \<lparr>screenshotId = i, screenshotUrl = ''https://a.io/'' @ i, bucket = ''screenshots'',
      storageKey = ''2024/'' @ i @ ''.png'', expiresAt = expiry, status = ShotCompleted\<rparr>"

definition demoStores :: Stores where
  "demoStores =
     \<lparr>screenshots = [demoShot ''s1'' 10, demoShot ''s2'' 20, demoShot ''s3'' 900, demoShot ''s4'' 30],
      blobs = [(''screenshots'', ''2024/s1.png''), (''screenshots'', ''2024/s2.png''),
               (''screenshots'', ''2024/s3.png''), (''screenshots'', ''2024/s4.png'')],
      deletedCount = 0, errorCount = 0\<rparr>"

text \<open>The blob store refuses to delete the object of \<^verbatim>\<open>s2\<close>; nothing else fails.\<close>

definition demoFaults :: Faults where
  "demoFaults =
     \<lparr>blobDeleteFails = (\<lambda>s. screenshotId s = ''s2''),
      recordDeleteFails = (\<lambda>s. False),
      statusUpdateFails = (\<lambda>s. False)\<rparr>"

section \<open>Render session pool (services/browser.ts)\<close>

text \<open>
  The module state: the counter \<^verbatim>\<open>activePages\<close>, the FIFO \<^verbatim>\<open>pageQueue\<close> of suspended
  callers (a caller is a number) and \<^verbatim>\<open>isShuttingDown\<close>. The runtime is single-threaded:
  code runs without interruption from one \<^verbatim>\<open>await\<close> to the next, and other callers run
  while a function is suspended at an \<^verbatim>\<open>await\<close>. \<open>handOffs\<close> holds, for every
  \<^verbatim>\<open>releasePage\<close> suspended at \<^verbatim>\<open>await initBrowser()\<close>, the queued caller \<^verbatim>\<open>next\<close> it has
  taken off the queue. Two fields record what the program does not store: \<open>holding\<close>, the
  callers that are counted in \<^verbatim>\<open>activePages\<close> and have not released their page, and
  \<open>served\<close>, the callers in the order in which they were counted.
\<close>

record Pool =
  activePages :: int
  pageQueue :: "nat list"
  isShuttingDown :: bool
  handOffs :: "nat list"
  holding :: "nat list"
  served :: "nat list"

definition initialPool :: Pool where
  "initialPool = \<lparr>activePages = 0, pageQueue = [], isShuttingDown = False, handOffs = [],
                   holding = [], served = []\<rparr>"

text \<open>
  \<^verbatim>\<open>acquirePage\<close> up to its first \<^verbatim>\<open>await\<close>: below the ceiling the caller is counted at
  once and goes on to open its page; otherwise its resolver is pushed on the queue.
\<close>

definition acquirePage :: "int \<Rightarrow> nat \<Rightarrow> Pool \<Rightarrow> Pool" where
  "acquirePage maxConcurrentPages caller s =
     (if activePages s < maxConcurrentPages
      then s\<lparr>activePages := activePages s + 1,
             holding := holding s @ [caller], served := served s @ [caller]\<rparr>
      else s\<lparr>pageQueue := pageQueue s @ [caller]\<rparr>)"

text \<open>
  \<^verbatim>\<open>releasePage\<close> from the moment \<^verbatim>\<open>page.close()\<close> has settled up to
  \<^verbatim>\<open>await initBrowser()\<close>: the counter is decremented, and with a queued caller and no
  shutdown the head of the queue is shifted off and the function suspends.
\<close>

definition releasePage :: "nat \<Rightarrow> Pool \<Rightarrow> Pool" where
  "releasePage caller s =
     (if caller \<notin> set (holding s) then s
      else (let s1 = s\<lparr>activePages := activePages s - 1, holding := remove1 caller (holding s)\<rparr>
            in case pageQueue s1 of
                 [] \<Rightarrow> s1
               | next # rest \<Rightarrow>
                   (if isShuttingDown s1 then s1
                    else s1\<lparr>pageQueue := rest, handOffs := handOffs s1 @ [next]\<rparr>)))"

text \<open>
  The rest of \<^verbatim>\<open>releasePage\<close>, once \<^verbatim>\<open>initBrowser()\<close> has settled: when it resolved, the
  counter is incremented and the page opened for \<^verbatim>\<open>next\<close>; when it threw, \<^verbatim>\<open>next\<close> is
  rejected and the counter stays.
\<close>

definition resumeRelease :: "nat \<Rightarrow> bool \<Rightarrow> Pool \<Rightarrow> Pool" where
  "resumeRelease next browserOk s =
     (if next \<notin> set (handOffs s) then s
      else (let s1 = s\<lparr>handOffs := remove1 next (handOffs s)\<rparr>
            in if browserOk
               then s1\<lparr>activePages := activePages s1 + 1,
                       holding := holding s1 @ [next], served := served s1 @ [next]\<rparr>
               else s1))"

text \<open>\<^verbatim>\<open>closeBrowser\<close> up to its first \<^verbatim>\<open>await\<close>: every queued caller is rejected.\<close>

definition closeBrowser :: "Pool \<Rightarrow> Pool" where
  "closeBrowser s = s\<lparr>isShuttingDown := True, pageQueue := []\<rparr>"

text \<open>A run of the pool is a sequence of such uninterrupted pieces.\<close>

datatype PoolEvent =
    AcquirePage nat
  | ReleasePage nat
  | ResumeRelease nat bool
  | CloseBrowser

fun poolStep :: "int \<Rightarrow> Pool \<Rightarrow> PoolEvent \<Rightarrow> Pool" where
  "poolStep maxConcurrentPages s (AcquirePage caller) = acquirePage maxConcurrentPages caller s"
| "poolStep maxConcurrentPages s (ReleasePage caller) = releasePage caller s"
| "poolStep maxConcurrentPages s (ResumeRelease next browserOk) = resumeRelease next browserOk s"
| "poolStep maxConcurrentPages s CloseBrowser = closeBrowser s"

definition runPool :: "int \<Rightarrow> PoolEvent list \<Rightarrow> Pool" where
  "runPool maxConcurrentPages events = foldl (poolStep maxConcurrentPages) initialPool events"

text \<open>
  With a ceiling of one page: caller 0 gets the page, caller 1 is queued, caller 0 releases
  and the release suspends with caller 1 in hand, caller 2 calls \<^verbatim>\<open>acquirePage\<close>, the
  release resumes.
\<close>

definition racingRun :: "PoolEvent list" where
  "racingRun = [AcquirePage 0, AcquirePage 1, ReleasePage 0, AcquirePage 2, ResumeRelease 1 True]"

text \<open>
  The bound the pool keeps as long as no \<^verbatim>\<open>acquirePage\<close> runs while a release is suspended:
  the pages counted, together with the queued callers already taken off the queue by a
  suspended release, stay within the ceiling.
\<close>

definition withinCeiling :: "int \<Rightarrow> Pool \<Rightarrow> bool" where
  "withinCeiling maxConcurrentPages s =
     (activePages s + int (length (handOffs s)) \<le> maxConcurrentPages)"

section \<open>Site crawl orchestrator (routes/site.ts, services/database.ts)\<close>

datatype SiteStatus = SitePending | SiteProcessing | SiteCompleted | SiteFailed

text \<open>The columns of a \<^verbatim>\<open>site_captures\<close> row that the background task writes.\<close>

record SiteCapture =
  totalPages :: nat
  capturedPages :: nat
  failedPages :: nat
  siteStatus :: SiteStatus

text \<open>
  \<^verbatim>\<open>createSiteCapture\<close>: the row starts in \<^verbatim>\<open>processing\<close> with the column defaults 0 for the
  two counters.
\<close>

definition createSiteCapture :: "nat \<Rightarrow> SiteCapture" where
  "createSiteCapture pageCount =
     \<lparr>totalPages = pageCount, capturedPages = 0, failedPages = 0, siteStatus = SiteProcessing\<rparr>"

text \<open>
  A worker is an \<^verbatim>\<open>async\<close> function. Between two of its steps it is suspended in
  \<^verbatim>\<open>await processUrl(entry)\<close>, or in \<^verbatim>\<open>await updateSiteCaptureProgress(...)\<close>, or it has
  left the loop, or its promise is rejected because the update threw. The update is a
  statement sent through the connection pool with the two counters as they were when it was
  issued: \<open>Updating c f\<close> is a worker whose statement is in flight, \<open>Answered ok\<close> a worker
  whose statement the store has executed (or failed) while the promise has not settled yet.
\<close>

datatype Worker = Capturing SitemapUrl | Updating nat nat | Answered bool | Returned | Thrown

definition isCapturing :: "Worker \<Rightarrow> bool" where
  "isCapturing w = (case w of Capturing entry \<Rightarrow> True | _ \<Rightarrow> False)"

text \<open>
  The variables the workers share (\<^verbatim>\<open>queue\<close>, \<^verbatim>\<open>capturedCount\<close>, \<^verbatim>\<open>failedCount\<close>), the
  workers, and the job's row in the store. Two fields record what the program does not
  store: \<open>processed\<close>, the entries handed to \<^verbatim>\<open>processUrl\<close> in the order of the calls, and
  \<open>outcomes\<close>, every entry with the value its \<^verbatim>\<open>processUrl\<close> returned, in the order of the
  returns.
\<close>

record Crawl =
  queue :: "SitemapUrl list"
  capturedCount :: nat
  failedCount :: nat
  workers :: "Worker list"
  job :: SiteCapture
  processed :: "SitemapUrl list"
  outcomes :: "(SitemapUrl \<times> bool) list"

text \<open>
  The head of the \<^verbatim>\<open>while\<close> loop, run without interruption: with an empty queue the worker
  returns, otherwise it shifts an entry off the queue and suspends in \<^verbatim>\<open>processUrl\<close>.
\<close>

definition enterLoop :: "Crawl \<Rightarrow> Worker \<times> Crawl" where
  "enterLoop s =
     (case queue s of
        [] \<Rightarrow> (Returned, s)
      | entry # rest \<Rightarrow> (Capturing entry, s\<lparr>queue := rest, processed := processed s @ [entry]\<rparr>))"

text \<open>
  \<^verbatim>\<open>Array(SITE_CAPTURE_CONCURRENCY).fill(null).map(() => worker())\<close>: each call runs the new
  worker up to its first \<^verbatim>\<open>await\<close> before the next worker starts.
\<close>

definition spawnWorker :: "Crawl \<Rightarrow> Crawl" where
  "spawnWorker s = (let (w, s1) = enterLoop s in s1\<lparr>workers := workers s1 @ [w]\<rparr>)"

definition startWorkers :: "nat \<Rightarrow> SitemapUrl list \<Rightarrow> Crawl" where
  "startWorkers concurrency urlList =
     (spawnWorker ^^ concurrency)
       \<lparr>queue = urlList, capturedCount = 0, failedCount = 0, workers = [],
        job = createSiteCapture (length urlList), processed = [], outcomes = []\<rparr>"

text \<open>
  \<^verbatim>\<open>processUrl\<close> settles for worker \<open>w\<close> with \<open>success\<close> (it catches every failure of the
  capture and returns \<^verbatim>\<open>false\<close>). The worker increments one counter and calls
  \<^verbatim>\<open>updateSiteCaptureProgress\<close> with both counters as they are now; the statement is then
  in flight.
\<close>

definition captureSettled :: "nat \<Rightarrow> bool \<Rightarrow> Crawl \<Rightarrow> Crawl" where
  "captureSettled w success s =
     (if w < length (workers s)
      then (case workers s ! w of
              Capturing entry \<Rightarrow>
                (let s1 = (if success then s\<lparr>capturedCount := capturedCount s + 1\<rparr>
                           else s\<lparr>failedCount := failedCount s + 1\<rparr>)
                 in s1\<lparr>outcomes := outcomes s1 @ [(entry, success)],
                       workers := (workers s1)[w := Updating (capturedCount s1) (failedCount s1)]\<rparr>)
            | _ \<Rightarrow> s)
      else s)"

text \<open>
  The store answers the statement of worker \<open>w\<close>: it executes the \<^verbatim>\<open>UPDATE\<close>, which sets
  both columns to the values the statement carries, or it fails. The statements of different
  workers travel on different connections of the pool, so the store may answer the
  statements in flight in any order.
\<close>

definition storeAnswers :: "nat \<Rightarrow> bool \<Rightarrow> Crawl \<Rightarrow> Crawl" where
  "storeAnswers w executed s =
     (if w < length (workers s)
      then (case workers s ! w of
              Updating c f \<Rightarrow>
                (let s1 = (if executed
                           then s\<lparr>job := (job s)\<lparr>capturedPages := c, failedPages := f\<rparr>\<rparr>
                           else s)
                 in s1\<lparr>workers := (workers s1)[w := Answered executed]\<rparr>)
            | _ \<Rightarrow> s)
      else s)"

text \<open>
  The \<^verbatim>\<open>await updateSiteCaptureProgress(...)\<close> of worker \<open>w\<close> settles: the worker goes back
  to the head of the loop, or throws.
\<close>

definition updateSettled :: "nat \<Rightarrow> Crawl \<Rightarrow> Crawl" where
  "updateSettled w s =
     (if w < length (workers s) \<and> workers s ! w = Answered True
      then (let (w', s1) = enterLoop s in s1\<lparr>workers := (workers s1)[w := w']\<rparr>)
      else if w < length (workers s) \<and> workers s ! w = Answered False
      then s\<lparr>workers := (workers s)[w := Thrown]\<rparr>
      else s)"

datatype CrawlEvent = CaptureSettled nat bool | StoreAnswers nat bool | UpdateSettled nat

fun crawlStep :: "Crawl \<Rightarrow> CrawlEvent \<Rightarrow> Crawl" where
  "crawlStep s (CaptureSettled w success) = captureSettled w success s"
| "crawlStep s (StoreAnswers w executed) = storeAnswers w executed s"
| "crawlStep s (UpdateSettled w) = updateSettled w s"

text \<open>The state of the task after the workers were started and the given events occurred.\<close>

definition crawl :: "nat \<Rightarrow> SitemapUrl list \<Rightarrow> CrawlEvent list \<Rightarrow> Crawl" where
  "crawl concurrency urlList events = foldl crawlStep (startWorkers concurrency urlList) events"

text \<open>
  \<^verbatim>\<open>await Promise.all(workers)\<close> and what follows. The promise rejects when a worker has
  thrown and resolves when every worker has returned. On resolution the task computes
  \<^verbatim>\<open>finalStatus\<close> and writes it with \<^verbatim>\<open>completeSiteCapture\<close>; \<open>completed\<close> tells whether
  that statement succeeds. A rejected task is an orchestration-level error: the
  \<^verbatim>\<open>.catch\<close> of the route handler calls \<^verbatim>\<open>completeSiteCapture(id, 'failed')\<close> and ignores
  its failure; \<open>marked\<close> tells whether that statement succeeds.
\<close>

datatype Outcome = StillProcessing | Resolved | Rejected

definition catchHandler :: "bool \<Rightarrow> SiteCapture \<Rightarrow> SiteCapture" where
  "catchHandler marked row = (if marked then row\<lparr>siteStatus := SiteFailed\<rparr> else row)"

definition processSiteCapture ::
  "nat \<Rightarrow> SitemapUrl list \<Rightarrow> CrawlEvent list \<Rightarrow> bool \<Rightarrow> bool \<Rightarrow> Outcome \<times> SiteCapture"
  where
  "processSiteCapture concurrency urlList events completed marked =
     (let s = crawl concurrency urlList events
      in if Thrown \<in> set (workers s) then (Rejected, catchHandler marked (job s))
         else if \<exists>w \<in> set (workers s). w \<noteq> Returned then (StillProcessing, job s)
         else if completed
         then (Resolved, (job s)\<lparr>siteStatus := (if 0 < capturedCount s then SiteCompleted
                                                   else SiteFailed)\<rparr>)
         else (Rejected, catchHandler marked (job s)))"

text \<open>
  Four pages and two workers: only the page \<^verbatim>\<open>/c\<close> is captured. In \<open>demoEvents\<close> the store
  executes the last two updates in the order in which they were issued, in \<open>staleEvents\<close> in
  the opposite order. In \<open>failingEvents\<close> the first update fails.
\<close>

definition demoUrls :: "SitemapUrl list" where
  "demoUrls = map (\<lambda>p. \<lparr>loc = ''https://a.io/'' @ p, lastmod = None, priority = None\<rparr>)
                [''a'', ''b'', ''c'', ''d'']"

definition firstRound :: "CrawlEvent list" where
  "firstRound =
     [CaptureSettled 1 False, CaptureSettled 0 False, StoreAnswers 1 True, StoreAnswers 0 True,
      UpdateSettled 0, UpdateSettled 1, CaptureSettled 1 False, CaptureSettled 0 True]"

definition demoEvents :: "CrawlEvent list" where
  "demoEvents =
     firstRound @ [StoreAnswers 1 True, StoreAnswers 0 True, UpdateSettled 1, UpdateSettled 0]"



text \<open>
  What holds between the steps of a crawl over \<open>urlList\<close>: the entries handed out so far
  followed by the queue are the list; the entries handed out are those that have an outcome
  and those being captured; the counters count the outcomes; a worker has returned only with
  the queue empty; the row and every statement in flight carry counters of an earlier moment;
  the row's total is the length of the list.
\<close>

definition capturedEntry :: "Worker \<Rightarrow> SitemapUrl multiset" where
  "capturedEntry w = (case w of Capturing entry \<Rightarrow> {#entry#} | _ \<Rightarrow> {#})"

definition inCapture :: "Worker list \<Rightarrow> SitemapUrl multiset" where
  "inCapture ws = sum_list (map capturedEntry ws)"

definition crawlInv :: "SitemapUrl list \<Rightarrow> Crawl \<Rightarrow> bool" where
  "crawlInv urlList s =
     (processed s @ queue s = urlList
      \<and> mset (map fst (outcomes s)) + inCapture (workers s) = mset (processed s)
      \<and> capturedCount s = length (filter snd (outcomes s))
      \<and> failedCount s = length (filter (\<lambda>outcome. \<not> snd outcome) (outcomes s))
      \<and> (Returned \<in> set (workers s) \<longrightarrow> queue s = [])
      \<and> capturedPages (job s) + failedPages (job s) \<le> length (outcomes s)
      \<and> (\<forall>c f. Updating c f \<in> set (workers s) \<longrightarrow> c + f \<le> length (outcomes s))
      \<and> totalPages (job s) = length urlList)"

text \<open>
  The work left in a crawl in which no update has failed: the number of events still to come,
  at most four for a queued entry, three for a worker in \<^verbatim>\<open>processUrl\<close>, two for a statement
  in flight and one for a worker whose statement was executed.
\<close>

definition pendingSteps :: "Worker \<Rightarrow> nat" where
  "pendingSteps w =
     (case w of Capturing entry \<Rightarrow> 3 | Updating c f \<Rightarrow> 2
              | Answered ok \<Rightarrow> (if ok then 1 else 0) | _ \<Rightarrow> 0)"

definition remainingWork :: "Crawl \<Rightarrow> nat" where
  "remainingWork s = 4 * length (queue s) + sum_list (map pendingSteps (workers s))"

definition noUpdateFailed :: "Crawl \<Rightarrow> bool" where
  "noUpdateFailed s = (Thrown \<notin> set (workers s) \<and> Answered False \<notin> set (workers s))"

section \<open>Verified properties\<close>

subsection \<open>Rate limiter\<close>

lemma toNumber_exact: "n < 2 ^ 53 \<Longrightarrow> toNumber n = enat n"
  by (simp add: toNumber_def)

lemma parseRateLimit_2_second: "parseRateLimit ''2/second'' = (2, 1000)"
  by (simp add: parseRateLimit_def isDigit_def parseInt10_def digitVal_def toNumber_exact
      numeral_eq_enat)

lemma stale_filter:
  assumes "\<forall>ts \<in> set xs. 1000 \<le> t1 - ts"
  shows "filter (\<lambda>ts. t1 - ts < (1000::int)) xs = []"
  using assms by (induction xs) auto

text \<open>
  Claim C4. A caller limited to \<^verbatim>\<open>2/second\<close>, with no timestamp of its own left inside
  the window at \<open>t1\<close>, makes three checks at \<open>t1 \<le> t2 \<le> t3\<close> within one second: the
  answers are admit, admit, reject, and the rejection carries
  \<^verbatim>\<open>max(1, ceil((oldest + windowMs - now) / 1000))\<close> with \<open>t1\<close> the oldest retained
  timestamp, which is at least one second. A fourth check once \<open>t1\<close> has left the window
  (\<open>t4 - t1 \<ge> 1000\<close>) is admitted again, because the filter drops \<open>t1\<close> before counting.
\<close>

theorem rate_limit_two_per_second:
  assumes lim: "rateLimit k = ''2/second''"
    and stale: "\<forall>ts \<in> set (storedTimestamps w0 (name k)). 1000 \<le> t1 - ts"
    and ord: "t1 \<le> t2" "t2 \<le> t3"
    and within: "t3 - t1 < 1000"
    and elapsed: "1000 \<le> t4 - t1"
  shows "map admitted (fourChecks w0 k t1 t2 t3 t4) = [True, True, False, True]
       \<and> fourChecks w0 k t1 t2 t3 t4 ! 2 = TooManyRequests (max 1 (ceilDiv1000 (t1 + 1000 - t3)))
       \<and> 1 \<le> max 1 (ceilDiv1000 (t1 + 1000 - t3))"
proof -
  have f0: "filter (\<lambda>ts. t1 - ts < 1000) (case w0 (name k) of None \<Rightarrow> [] | Some w \<Rightarrow> w) = []"
    using stale_filter [OF stale] by (simp add: storedTimestamps_def)
  show ?thesis
    using ord within elapsed
    by (simp add: fourChecks_def rateLimitMiddleware_def lim parseRateLimit_2_second f0
        admitted_def Let_def)
qed

theorem rate_limit_two_per_second_witness:
  "map admitted (fourChecks Map.empty
       \<lparr>key = ''k'', name = ''acme'', rateLimit = ''2/second'', enabled = True\<rparr>
       5000 5200 5900 6100) = [True, True, False, True]
   \<and> fourChecks Map.empty
       \<lparr>key = ''k'', name = ''acme'', rateLimit = ''2/second'', enabled = True\<rparr>
       5000 5200 5900 6100 ! 2 = TooManyRequests 1"
  using rate_limit_two_per_second
    [of "\<lparr>key = ''k'', name = ''acme'', rateLimit = ''2/second'', enabled = True\<rparr>"
        Map.empty 5000 5200 5900 6100]
  by (simp add: storedTimestamps_def ceilDiv1000_def)

subsection \<open>Sitemap resolver\<close>

lemma collect_length:
  "0 \<le> maxPages \<Longrightarrow> int (length (urls (collectAllUrls fetch sitemapUrl maxPages depth))) \<le> maxPages"
  "int (length (urls result)) \<le> maxPages \<Longrightarrow>
     int (length (urls (collectNested fetch nestedUrls maxPages depth result))) \<le> maxPages"
proof (induction fetch sitemapUrl maxPages depth and fetch nestedUrls maxPages depth result
    rule: collectAllUrls_collectNested.induct)
  case (1 fetch sitemapUrl maxPages depth)
  then show ?case
    by (subst collectAllUrls.simps) (auto simp: slice0_def split: sum.splits)
next
  case (2 fetch maxPages depth result)
  then show ?case by simp
next
  case (3 fetch nestedUrl nestedUrls maxPages depth result)
  show ?case
  proof (cases "maxPages \<le> int (length (urls result))")
    case True
    then show ?thesis using "3.prems" by simp
  next
    case False
    then have "int (length (urls (collectAllUrls fetch nestedUrl
                 (maxPages - int (length (urls result))) (depth + 1))))
               \<le> maxPages - int (length (urls result))"
      using "3.IH"(1) by simp
    then show ?thesis
      using False "3.IH"(2) [OF False refl] by (simp add: Let_def)
  qed
qed

lemma collectNested_full:
  "maxPages \<le> int (length (urls result)) \<Longrightarrow> collectNested fetch nestedUrls maxPages depth result = result"
  by (cases nestedUrls) simp_all

lemma collectNested_append:
  "collectNested fetch (xs @ ys) maxPages depth result
     = collectNested fetch ys maxPages depth (collectNested fetch xs maxPages depth result)"
  by (induction xs arbitrary: result) (simp_all add: Let_def collectNested_full)

lemma collectNested_urls_cong:
  "urls r = urls r' \<Longrightarrow>
     urls (collectNested fetch ns maxPages depth r) = urls (collectNested fetch ns maxPages depth r')"
  by (induction ns arbitrary: r r') (simp_all add: Let_def)

lemma collectNested_errors_mono:
  "set (errors r) \<subseteq> set (errors (collectNested fetch ns maxPages depth r))"
proof (induction ns arbitrary: r)
  case Nil
  then show ?case by simp
next
  case (Cons n ns)
  show ?case
  proof (cases "maxPages \<le> int (length (urls r))")
    case True
    then show ?thesis by simp
  next
    case False
    then show ?thesis
      using Cons.IH [of "\<lparr>urls = urls r @ urls (collectAllUrls fetch n (maxPages - int (length (urls r))) (depth + 1)),
                  errors = errors r @ errors (collectAllUrls fetch n (maxPages - int (length (urls r))) (depth + 1))\<rparr>"]
      by (auto simp: Let_def)
  qed
qed

lemma collectNested_at_limit:
  "MAX_SITEMAP_DEPTH \<le> depth + 1 \<Longrightarrow> int (length (urls r)) < maxPages \<Longrightarrow>
   collectNested fetch ns maxPages depth r = r\<lparr>errors := errors r @ map depthError ns\<rparr>"
proof (induction ns arbitrary: r)
  case Nil
  then show ?case by simp
next
  case (Cons n ns)
  have n: "collectAllUrls fetch n (maxPages - int (length (urls r))) (Suc depth)
            = \<lparr>urls = [], errors = [depthError n]\<rparr>"
    using Cons.prems(1) by (subst collectAllUrls.simps) simp
  show ?case
    using Cons.prems Cons.IH [of "\<lparr>urls = urls r, errors = errors r @ [depthError n]\<rparr>"]
    by (simp add: n Let_def)
qed


text \<open>
  Claim C3. For every network, start URL and depth, a budget \<open>maxPages \<ge> 1\<close> bounds the
  number of URLs \<^verbatim>\<open>collectAllUrls\<close> returns. A sitemap reached at depth 3 or more is not
  fetched: the call yields no URL and the single soft error
  \<^verbatim>\<open>Max sitemap depth (3) reached at ...\<close>. Hence an index at the last fetched level
  (depth 2) returns no URL and exactly one such error for each sitemap it lists.
\<close>

theorem collect_bounded_and_depth_limited:
  "(1 \<le> maxPages \<longrightarrow>
      int (length (urls (collectAllUrls fetch sitemapUrl maxPages depth))) \<le> maxPages)
   \<and> (MAX_SITEMAP_DEPTH \<le> depth \<longrightarrow>
        collectAllUrls fetch sitemapUrl maxPages depth
          = \<lparr>urls = [], errors = [depthError sitemapUrl]\<rparr>)
   \<and> (depth + 1 = MAX_SITEMAP_DEPTH \<and> 1 \<le> maxPages \<and> fetch sitemapUrl = Inr xml
          \<and> isSitemapIndex xml \<longrightarrow>
        collectAllUrls fetch sitemapUrl maxPages depth
          = \<lparr>urls = [], errors = map depthError (parseSitemapIndex xml)\<rparr>)"
proof (intro conjI impI)
  assume "1 \<le> maxPages"
  then show "int (length (urls (collectAllUrls fetch sitemapUrl maxPages depth))) \<le> maxPages"
    using collect_length(1) [of maxPages fetch sitemapUrl depth] by simp
next
  assume "MAX_SITEMAP_DEPTH \<le> depth"
  then show "collectAllUrls fetch sitemapUrl maxPages depth
               = \<lparr>urls = [], errors = [depthError sitemapUrl]\<rparr>"
    by (subst collectAllUrls.simps) simp
next
  assume a: "depth + 1 = MAX_SITEMAP_DEPTH \<and> 1 \<le> maxPages \<and> fetch sitemapUrl = Inr xml
          \<and> isSitemapIndex xml"
  then have d: "\<not> MAX_SITEMAP_DEPTH \<le> depth" and d': "MAX_SITEMAP_DEPTH \<le> depth + 1"
    by simp_all
  have "collectNested fetch (parseSitemapIndex xml) maxPages depth \<lparr>urls = [], errors = []\<rparr>
          = \<lparr>urls = [], errors = map depthError (parseSitemapIndex xml)\<rparr>"
    using collectNested_at_limit [OF d', of "\<lparr>urls = [], errors = []\<rparr>" maxPages fetch
        "parseSitemapIndex xml"] a
    by simp
  then show "collectAllUrls fetch sitemapUrl maxPages depth
               = \<lparr>urls = [], errors = map depthError (parseSitemapIndex xml)\<rparr>"
    using a d by (subst collectAllUrls.simps) simp
qed

lemma demoSite_i2: "parseSitemapIndex ''<sitemapindex><sitemap><loc>l3</loc></sitemap></sitemapindex>'' = [''l3'']"
  by code_simp

lemma demoSite_i2_index: "isSitemapIndex ''<sitemapindex><sitemap><loc>l3</loc></sitemap></sitemapindex>''"
  by code_simp

lemma demoSite_run: "collectAllUrls demoSite ''i0'' 2 0
     = \<lparr>urls = [\<lparr>loc = ''https://a.io/b'', lastmod = None, priority = None\<rparr>,
                \<lparr>loc = ''https://a.io/a'', lastmod = None, priority = None\<rparr>],
        errors = [fetchError ''bad'' ''HTTP 404: Not Found'', depthError ''l3'']\<rparr>"
  by code_simp

theorem collect_bounded_and_depth_limited_witness:
  "int (length (urls (collectAllUrls demoSite ''i0'' 2 0))) \<le> 2
   \<and> collectAllUrls demoSite ''l3'' 2 3 = \<lparr>urls = [], errors = [depthError ''l3'']\<rparr>
   \<and> collectAllUrls demoSite ''i2'' 2 2 = \<lparr>urls = [], errors = [depthError ''l3'']\<rparr>
   \<and> collectAllUrls demoSite ''i0'' 2 0
     = \<lparr>urls = [\<lparr>loc = ''https://a.io/b'', lastmod = None, priority = None\<rparr>,
                \<lparr>loc = ''https://a.io/a'', lastmod = None, priority = None\<rparr>],
        errors = [fetchError ''bad'' ''HTTP 404: Not Found'', depthError ''l3'']\<rparr>"
  using collect_bounded_and_depth_limited [of 2 demoSite "''i0''" 0]
    collect_bounded_and_depth_limited [of 2 demoSite "''l3''" 3]
    collect_bounded_and_depth_limited [of 2 demoSite "''i2''" 2
      "''<sitemapindex><sitemap><loc>l3</loc></sitemap></sitemapindex>''"]
    demoSite_run
  by (simp add: MAX_SITEMAP_DEPTH_def demoSite_def demoSite_i2 demoSite_i2_index)


lemma collectNested_failed_branch:
  assumes "fetch failing = Inl msg" and "depth + 1 < MAX_SITEMAP_DEPTH"
    and "int (length (urls r)) < maxPages"
  shows "collectNested fetch (failing # rest) maxPages depth r
           = collectNested fetch rest maxPages depth
               \<lparr>urls = urls r, errors = errors r @ [fetchError failing msg]\<rparr>"
proof -
  have "collectAllUrls fetch failing (maxPages - int (length (urls r))) (Suc depth)
          = \<lparr>urls = [], errors = [fetchError failing msg]\<rparr>"
    using assms(1,2) by (subst collectAllUrls.simps) simp
  then show ?thesis using assms(3) by (simp add: Let_def)
qed

text \<open>
  Claim C7. In a sitemap index fetched below the depth limit, a nested sitemap whose fetch
  fails contributes nothing but a soft error: the URLs returned are exactly those the loop
  collects from the sibling branches alone, and whenever the loop reaches the failing branch
  (the budget is not used up by the branches before it) the message
  \<^verbatim>\<open>Failed to fetch ...\<close> is in the errors list.
\<close>

theorem failed_branch_is_soft_error:
  assumes idx: "fetch indexUrl = Inr xml" "isSitemapIndex xml"
    and branches: "parseSitemapIndex xml = before @ failing # after"
    and fails: "fetch failing = Inl msg"
    and depth: "depth + 1 < MAX_SITEMAP_DEPTH"
  shows "urls (collectAllUrls fetch indexUrl maxPages depth)
           = urls (collectNested fetch (before @ after) maxPages depth \<lparr>urls = [], errors = []\<rparr>)
       \<and> (int (length (urls (collectNested fetch before maxPages depth
                                \<lparr>urls = [], errors = []\<rparr>))) < maxPages
            \<longrightarrow> fetchError failing msg
                  \<in> set (errors (collectAllUrls fetch indexUrl maxPages depth)))"
proof -
  define r0 where "r0 = collectNested fetch before maxPages depth \<lparr>urls = [], errors = []\<rparr>"
  define r1 where "r1 = \<lparr>urls = urls r0, errors = errors r0 @ [fetchError failing msg]\<rparr>"
  have top: "collectAllUrls fetch indexUrl maxPages depth
               = collectNested fetch (failing # after) maxPages depth r0"
    using idx branches depth
    by (subst collectAllUrls.simps) (simp add: collectNested_append r0_def)
  have sib: "collectNested fetch (before @ after) maxPages depth \<lparr>urls = [], errors = []\<rparr>
               = collectNested fetch after maxPages depth r0"
    by (simp add: collectNested_append r0_def)
  show ?thesis
  proof (cases "int (length (urls r0)) < maxPages")
    case True
    have step: "collectNested fetch (failing # after) maxPages depth r0
                  = collectNested fetch after maxPages depth r1"
      unfolding r1_def
      using collectNested_failed_branch [of fetch failing msg depth r0 maxPages after] fails depth True
      by simp
    have "urls (collectNested fetch after maxPages depth r1)
            = urls (collectNested fetch after maxPages depth r0)"
      by (rule collectNested_urls_cong) (simp add: r1_def)
    moreover have "fetchError failing msg \<in> set (errors (collectNested fetch after maxPages depth r1))"
      using collectNested_errors_mono [of r1 fetch after maxPages depth] by (auto simp: r1_def)
    ultimately show ?thesis
      using top sib step True by (simp add: r0_def)
  next
    case False
    then have full: "maxPages \<le> int (length (urls r0))" by simp
    show ?thesis
      using top sib False collectNested_full [OF full] by (simp add: r0_def)
  qed
qed

lemma demoSite_i0: "parseSitemapIndex (''<sitemapindex><sitemap><loc>bad</loc></sitemap>''
                             @ ''<sitemap><loc>i1</loc></sitemap>''
                             @ ''<sitemap><loc>l0</loc></sitemap></sitemapindex>'') = [''bad'', ''i1'', ''l0'']"
  by code_simp

lemma demoSite_i0_index: "isSitemapIndex (''<sitemapindex><sitemap><loc>bad</loc></sitemap>''
                             @ ''<sitemap><loc>i1</loc></sitemap>''
                             @ ''<sitemap><loc>l0</loc></sitemap></sitemapindex>'')"
  by code_simp

lemma demoSite_siblings: "urls (collectNested demoSite [''i1'', ''l0''] 2 0 \<lparr>urls = [], errors = []\<rparr>)
     = [\<lparr>loc = ''https://a.io/b'', lastmod = None, priority = None\<rparr>,
        \<lparr>loc = ''https://a.io/a'', lastmod = None, priority = None\<rparr>]"
  by code_simp

theorem failed_branch_is_soft_error_witness:
  "urls (collectAllUrls demoSite ''i0'' 2 0)
     = [\<lparr>loc = ''https://a.io/b'', lastmod = None, priority = None\<rparr>,
        \<lparr>loc = ''https://a.io/a'', lastmod = None, priority = None\<rparr>]
   \<and> fetchError ''bad'' ''HTTP 404: Not Found'' \<in> set (errors (collectAllUrls demoSite ''i0'' 2 0))"
  using failed_branch_is_soft_error [of demoSite "''i0''"
      "''<sitemapindex><sitemap><loc>bad</loc></sitemap>''
         @ ''<sitemap><loc>i1</loc></sitemap>''
         @ ''<sitemap><loc>l0</loc></sitemap></sitemapindex>''"
      "[]" "''bad''" "[''i1'', ''l0'']" "''HTTP 404: Not Found''" 0 2]
    demoSite_i0 demoSite_i0_index demoSite_siblings
  by (simp add: demoSite_def MAX_SITEMAP_DEPTH_def)

subsection \<open>sortUrlsByPath\<close>

lemma comparePaths_error: "comparePaths p lc a b = Inl e \<Longrightarrow> e = TypeError ''Invalid URL''"
  by (auto simp: comparePaths_def split: option.splits)

lemma comparePaths_bad:
  "p (loc a) = None \<or> p (loc b) = None \<Longrightarrow>
     comparePaths p lc a b = Inl (TypeError ''Invalid URL'')"
  by (auto simp: comparePaths_def split: option.splits)

lemma comparePaths_good:
  "p (loc a) \<noteq> None \<Longrightarrow> p (loc b) \<noteq> None \<Longrightarrow> \<exists>c. comparePaths p lc a b = Inr c"
  by (auto simp: comparePaths_def split: option.splits)

lemma insertSorted_set:
  "insertSorted cmp x ys = Inr zs \<Longrightarrow> set zs = insert x (set ys) \<and> length zs = Suc (length ys)"
proof (induction ys arbitrary: zs)
  case Nil
  then show ?case by auto
next
  case (Cons y ys)
  from Cons.prems obtain c where c: "cmp x y = Inr c"
    by (cases "cmp x y") auto
  show ?case
  proof (cases "c \<le> 0")
    case True
    then show ?thesis using Cons.prems c by auto
  next
    case False
    then obtain zs' where zs': "insertSorted cmp x ys = Inr zs'" "zs = y # zs'"
      using Cons.prems c by (cases "insertSorted cmp x ys") auto
    then show ?thesis using Cons.IH [OF zs'(1)] by auto
  qed
qed

lemma arraySort_set: "arraySort cmp xs = Inr ys \<Longrightarrow> set ys = set xs \<and> length ys = length xs"
proof (induction xs arbitrary: ys)
  case Nil
  then show ?case by simp
next
  case (Cons x xs)
  then obtain ys' where ys': "arraySort cmp xs = Inr ys'" "insertSorted cmp x ys' = Inr ys"
    by (cases "arraySort cmp xs") auto
  then show ?case
    using Cons.IH [OF ys'(1)] insertSorted_set [OF ys'(2)] by simp
qed

lemma insertSorted_error:
  "insertSorted (comparePaths p lc) x ys = Inl e \<Longrightarrow> e = TypeError ''Invalid URL''"
proof (induction ys)
  case Nil
  then show ?case by simp
next
  case (Cons y ys)
  show ?case
  proof (cases "comparePaths p lc x y")
    case (Inl e')
    then show ?thesis using Cons.prems comparePaths_error [OF Inl] by simp
  next
    case (Inr c)
    then show ?thesis
      using Cons by (cases "c \<le> 0"; cases "insertSorted (comparePaths p lc) x ys") auto
  qed
qed

lemma arraySort_error:
  "arraySort (comparePaths p lc) xs = Inl e \<Longrightarrow> e = TypeError ''Invalid URL''"
proof (induction xs)
  case Nil
  then show ?case by simp
next
  case (Cons x xs)
  then show ?case
    by (cases "arraySort (comparePaths p lc) xs") (auto dest: insertSorted_error)
qed

lemma insertSorted_total:
  "p (loc x) \<noteq> None \<Longrightarrow> \<forall>y \<in> set ys. p (loc y) \<noteq> None \<Longrightarrow>
     \<exists>zs. insertSorted (comparePaths p lc) x ys = Inr zs"
proof (induction ys)
  case Nil
  then show ?case by simp
next
  case (Cons y ys)
  then obtain c where c: "comparePaths p lc x y = Inr c"
    using comparePaths_good [of p x y lc] by auto
  from Cons obtain zs where "insertSorted (comparePaths p lc) x ys = Inr zs"
    by auto
  then show ?case using c by simp
qed

lemma arraySort_total:
  "\<forall>x \<in> set xs. p (loc x) \<noteq> None \<Longrightarrow> \<exists>ys. arraySort (comparePaths p lc) xs = Inr ys"
proof (induction xs)
  case Nil
  then show ?case by simp
next
  case (Cons x xs)
  then obtain ys where ys: "arraySort (comparePaths p lc) xs = Inr ys" by auto
  then have "set ys = set xs" by (simp add: arraySort_set)
  then show ?case
    using insertSorted_total [of p x ys lc] Cons.prems ys by auto
qed

lemma insertSorted_head_bad:
  "p (loc x) = None \<or> p (loc y) = None \<Longrightarrow>
     insertSorted (comparePaths p lc) x (y # ys) = Inl (TypeError ''Invalid URL'')"
  using comparePaths_bad [of p x y lc] by simp

lemma arraySort_bad:
  "2 \<le> length xs \<Longrightarrow> \<exists>b \<in> set xs. p (loc b) = None \<Longrightarrow>
     arraySort (comparePaths p lc) xs = Inl (TypeError ''Invalid URL'')"
proof (induction xs)
  case Nil
  then show ?case by simp
next
  case (Cons x xs)
  show ?case
  proof (cases "arraySort (comparePaths p lc) xs")
    case (Inl e)
    then show ?thesis using arraySort_error [OF Inl] by simp
  next
    case (Inr ys)
    then have ys: "set ys = set xs" "length ys = length xs"
      by (simp_all add: arraySort_set)
    with Cons.prems obtain y ys' where cons: "ys = y # ys'"
      by (cases ys) auto
    have "p (loc x) = None \<or> p (loc y) = None"
    proof (cases "2 \<le> length xs")
      case True
      have "\<not> (\<exists>b \<in> set xs. p (loc b) = None)"
      proof
        assume "\<exists>b \<in> set xs. p (loc b) = None"
        then have "arraySort (comparePaths p lc) xs = Inl (TypeError ''Invalid URL'')"
          using Cons.IH True by blast
        with Inr show False by simp
      qed
      then show ?thesis using Cons.prems(2) by auto
    next
      case False
      then have "ys' = []" using ys(2) cons by (cases ys') auto
      then have "set xs = {y}" using ys(1) cons by simp
      then show ?thesis using Cons.prems(2) by auto
    qed
    then show ?thesis
      using Inr cons insertSorted_head_bad [of p x y lc ys'] by simp
  qed
qed

lemma arraySort_short: "length xs \<le> 1 \<Longrightarrow> arraySort cmp xs = Inr xs"
  by (cases xs) auto

lemma sortUrlsByPath_throws_iff:
  "sortUrlsByPath pathname lc entries = Inl (TypeError ''Invalid URL'')
     \<longleftrightarrow> 2 \<le> length entries \<and> (\<exists>e \<in> set entries. pathname (loc e) = None)"
proof
  assume l: "sortUrlsByPath pathname lc entries = Inl (TypeError ''Invalid URL'')"
  have "2 \<le> length entries"
  proof (rule ccontr)
    assume "\<not> 2 \<le> length entries"
    then have "length entries \<le> 1" by simp
    from arraySort_short [OF this, of "comparePaths pathname lc"] l show False
      by (simp add: sortUrlsByPath_def)
  qed
  moreover have "\<exists>e \<in> set entries. pathname (loc e) = None"
  proof (rule ccontr)
    assume "\<not> (\<exists>e \<in> set entries. pathname (loc e) = None)"
    then have "\<forall>e \<in> set entries. pathname (loc e) \<noteq> None" by simp
    from arraySort_total [OF this, of lc] l show False by (auto simp: sortUrlsByPath_def)
  qed
  ultimately show "2 \<le> length entries \<and> (\<exists>e \<in> set entries. pathname (loc e) = None)" ..
next
  assume "2 \<le> length entries \<and> (\<exists>e \<in> set entries. pathname (loc e) = None)"
  then show "sortUrlsByPath pathname lc entries = Inl (TypeError ''Invalid URL'')"
    by (simp add: sortUrlsByPath_def arraySort_bad)
qed

lemma sortUrlsByPath_returns:
  "sortUrlsByPath pathname lc entries = Inr ys \<Longrightarrow>
     set ys = set entries \<and> length ys = length entries"
  by (simp add: sortUrlsByPath_def arraySort_set)


lemma demoSite_l1: "collectAllUrls demoSite ''l1'' 100 0
     = \<lparr>urls = [\<lparr>loc = ''/about'', lastmod = None, priority = None\<rparr>], errors = []\<rparr>"
  by code_simp

lemma demoSite_l2: "collectAllUrls demoSite ''l2'' 100 0
     = \<lparr>urls = [\<lparr>loc = ''https://a.io/x'', lastmod = None, priority = None\<rparr>,
                \<lparr>loc = ''/about'', lastmod = None, priority = None\<rparr>], errors = []\<rparr>"
  by code_simp

lemma demoPathname_about: "demoPathname ''/about'' = None"
  by (simp add: demoPathname_def)

text \<open>
  Claim C10, as stated, fails on a list of one entry: the sitemap parser keeps the
  \<^verbatim>\<open>loc\<close> text \<^verbatim>\<open>/about\<close>, which is no absolute URL, yet \<^verbatim>\<open>sortUrlsByPath\<close> returns the
  list, because the comparator is never called, and the submission is accepted.
\<close>

theorem sortUrlsByPath_single_entry_counterexample:
  "parseSitemapUrls ''<urlset><url><loc>/about</loc></url></urlset>''
     = [\<lparr>loc = ''/about'', lastmod = None, priority = None\<rparr>]
   \<and> demoPathname ''/about'' = None
   \<and> sortUrlsByPath demoPathname demoCompare
         [\<lparr>loc = ''/about'', lastmod = None, priority = None\<rparr>]
       = Inr [\<lparr>loc = ''/about'', lastmod = None, priority = None\<rparr>]
   \<and> postSite demoSite demoPathname demoCompare (Inr ''l1'') 100 True
       = Accepted202 1 [\<lparr>loc = ''/about'', lastmod = None, priority = None\<rparr>]"
proof -
  have "parseSitemapUrls ''<urlset><url><loc>/about</loc></url></urlset>''
          = [\<lparr>loc = ''/about'', lastmod = None, priority = None\<rparr>]"
    by code_simp
  then show ?thesis
    by (simp add: demoPathname_about sortUrlsByPath_def postSite_def demoSite_l1)
qed

text \<open>
  Claim C10, amended. \<^verbatim>\<open>sortUrlsByPath\<close> returns exactly on the lists that have fewer than
  two entries or whose every \<^verbatim>\<open>loc\<close> parses as an absolute URL. On every list with at least
  two entries and an entry whose \<^verbatim>\<open>loc\<close> does not parse it throws
  \<^verbatim>\<open>TypeError: Invalid URL\<close>, and when the collected list is such a list the submission is
  answered with status 500 and no job is created.
\<close>

theorem sortUrlsByPath_throws_on_unparseable_loc:
  "((\<exists>ys. sortUrlsByPath pathname lc entries = Inr ys)
      \<longleftrightarrow> length entries < 2 \<or> (\<forall>e \<in> set entries. pathname (loc e) \<noteq> None))
   \<and> (2 \<le> length entries \<and> (\<exists>e \<in> set entries. pathname (loc e) = None) \<longrightarrow>
        sortUrlsByPath pathname lc entries = Inl (TypeError ''Invalid URL''))
   \<and> (2 \<le> length (urls (collectAllUrls fetch sitemapUrl maxPages 0))
        \<and> (\<exists>e \<in> set (urls (collectAllUrls fetch sitemapUrl maxPages 0)). pathname (loc e) = None)
      \<longrightarrow> postSite fetch pathname lc (Inr sitemapUrl) maxPages created = InternalServerError500)"
proof (intro conjI impI)
  show "(\<exists>ys. sortUrlsByPath pathname lc entries = Inr ys)
      \<longleftrightarrow> length entries < 2 \<or> (\<forall>e \<in> set entries. pathname (loc e) \<noteq> None)"
  proof
    assume "\<exists>ys. sortUrlsByPath pathname lc entries = Inr ys"
    then have "sortUrlsByPath pathname lc entries \<noteq> Inl (TypeError ''Invalid URL'')"
      by auto
    then have "\<not> (2 \<le> length entries \<and> (\<exists>e \<in> set entries. pathname (loc e) = None))"
      by (simp only: sortUrlsByPath_throws_iff not_False_eq_True)
    then show "length entries < 2 \<or> (\<forall>e \<in> set entries. pathname (loc e) \<noteq> None)"
      by auto
  next
    assume "length entries < 2 \<or> (\<forall>e \<in> set entries. pathname (loc e) \<noteq> None)"
    then show "\<exists>ys. sortUrlsByPath pathname lc entries = Inr ys"
    proof
      assume "length entries < 2"
      then have "length entries \<le> 1" by simp
      then show ?thesis by (simp add: sortUrlsByPath_def arraySort_short)
    next
      assume "\<forall>e \<in> set entries. pathname (loc e) \<noteq> None"
      from arraySort_total [OF this, of lc] show ?thesis
        by (simp add: sortUrlsByPath_def)
    qed
  qed
next
  assume "2 \<le> length entries \<and> (\<exists>e \<in> set entries. pathname (loc e) = None)"
  then show "sortUrlsByPath pathname lc entries = Inl (TypeError ''Invalid URL'')"
    by (simp only: sortUrlsByPath_throws_iff)
next
  assume a: "2 \<le> length (urls (collectAllUrls fetch sitemapUrl maxPages 0))
        \<and> (\<exists>e \<in> set (urls (collectAllUrls fetch sitemapUrl maxPages 0)). pathname (loc e) = None)"
  then have "sortUrlsByPath pathname lc (urls (collectAllUrls fetch sitemapUrl maxPages 0))
               = Inl (TypeError ''Invalid URL'')"
    by (simp only: sortUrlsByPath_throws_iff)
  moreover have "urls (collectAllUrls fetch sitemapUrl maxPages 0) \<noteq> []"
    using a by auto
  ultimately show "postSite fetch pathname lc (Inr sitemapUrl) maxPages created
                     = InternalServerError500"
    by (simp add: postSite_def Let_def)
qed

theorem sortUrlsByPath_throws_on_unparseable_loc_witness:
  "urls (collectAllUrls demoSite ''l2'' 100 0)
     = [\<lparr>loc = ''https://a.io/x'', lastmod = None, priority = None\<rparr>,
        \<lparr>loc = ''/about'', lastmod = None, priority = None\<rparr>]
   \<and> sortUrlsByPath demoPathname demoCompare
         [\<lparr>loc = ''https://a.io/x'', lastmod = None, priority = None\<rparr>,
          \<lparr>loc = ''/about'', lastmod = None, priority = None\<rparr>]
       = Inl (TypeError ''Invalid URL'')
   \<and> postSite demoSite demoPathname demoCompare (Inr ''l2'') 100 True = InternalServerError500"
  using sortUrlsByPath_throws_on_unparseable_loc
    [of demoPathname demoCompare
        "[\<lparr>loc = ''https://a.io/x'', lastmod = None, priority = None\<rparr>,
          \<lparr>loc = ''/about'', lastmod = None, priority = None\<rparr>]"
        demoSite "''l2''" 100 True]
  by (simp add: demoSite_l2 demoPathname_about)

subsection \<open>Expiry sweeper\<close>

lemma cleanupScreenshot_other_rows:
  "screenshotId t \<noteq> screenshotId s \<Longrightarrow>
     t \<in> set (screenshots (cleanupScreenshot faults st s)) \<longleftrightarrow> t \<in> set (screenshots st)"
  by (auto simp: cleanupScreenshot_def markExpired_def updateScreenshotStatus_def
      deleteScreenshotRecord_def Let_def)

lemma cleanup_loop_other_rows:
  "screenshotId t \<notin> screenshotId ` set batch \<Longrightarrow>
     t \<in> set (screenshots (foldl (cleanupScreenshot faults) st batch)) \<longleftrightarrow> t \<in> set (screenshots st)"
  by (induction batch arbitrary: st) (auto simp: cleanupScreenshot_other_rows)

lemma updateScreenshotStatus_ids:
  "map screenshotId (updateScreenshotStatus i v rows) = map screenshotId rows"
  by (induction rows) (auto simp: updateScreenshotStatus_def)

lemma cleanupScreenshot_ids: "screenshotIds (cleanupScreenshot faults st s) \<subseteq> screenshotIds st"
proof -
  have "set (map screenshotId (deleteScreenshotRecord (screenshotId s) (screenshots st)))
          \<subseteq> set (map screenshotId (screenshots st))"
    by (auto simp: deleteScreenshotRecord_def)
  then show ?thesis
    unfolding screenshotIds_def cleanupScreenshot_def markExpired_def Let_def
    by (simp add: updateScreenshotStatus_ids del: set_map)
qed

lemma cleanup_loop_ids: "screenshotIds (foldl (cleanupScreenshot faults) st batch) \<subseteq> screenshotIds st"
proof (induction batch arbitrary: st)
  case Nil
  then show ?case by simp
next
  case (Cons b batch)
  have "screenshotIds (foldl (cleanupScreenshot faults) (cleanupScreenshot faults st b) batch)
          \<subseteq> screenshotIds (cleanupScreenshot faults st b)"
    by (rule Cons)
  also have "\<dots> \<subseteq> screenshotIds st" by (rule cleanupScreenshot_ids)
  finally show ?case by simp
qed

lemma cleanupScreenshot_blobs:
  "set (blobs (cleanupScreenshot faults st s)) \<subseteq> set (blobs st)"
  by (auto simp: cleanupScreenshot_def markExpired_def deleteScreenshot_def Let_def)

lemma cleanup_loop_blobs:
  "set (blobs (foldl (cleanupScreenshot faults) st batch)) \<subseteq> set (blobs st)"
proof (induction batch arbitrary: st)
  case Nil
  then show ?case by simp
next
  case (Cons b batch)
  show ?case
    using Cons [of "cleanupScreenshot faults st b"] cleanupScreenshot_blobs [of faults st b]
    by auto
qed


lemma cleanupScreenshot_distinct:
  "distinct (map screenshotId (screenshots st)) \<Longrightarrow>
     distinct (map screenshotId (screenshots (cleanupScreenshot faults st s)))"
  unfolding cleanupScreenshot_def markExpired_def Let_def
  by (simp add: updateScreenshotStatus_ids deleteScreenshotRecord_def distinct_map_filter)

lemma cleanup_loop_distinct:
  "distinct (map screenshotId (screenshots st)) \<Longrightarrow>
     distinct (map screenshotId (screenshots (foldl (cleanupScreenshot faults) st batch)))"
  by (induction batch arbitrary: st) (simp_all add: cleanupScreenshot_distinct)

lemma cleanupScreenshot_marks:
  assumes "s \<in> set (screenshots st)" "blobDeleteFails faults s" "\<not> statusUpdateFails faults s"
  shows "s\<lparr>status := ShotExpired\<rparr> \<in> set (screenshots (cleanupScreenshot faults st s))"
  using assms
  by (auto simp: cleanupScreenshot_def markExpired_def updateScreenshotStatus_def Let_def
      intro!: image_eqI [where x = s])

lemma cleanup_loop_marks:
  assumes "distinct (map screenshotId batch)" "s \<in> set batch" "s \<in> set (screenshots st)"
    and "blobDeleteFails faults s" "\<not> statusUpdateFails faults s"
  shows "s\<lparr>status := ShotExpired\<rparr> \<in> set (screenshots (foldl (cleanupScreenshot faults) st batch))"
  using assms(1-3)
proof (induction batch arbitrary: st)
  case Nil
  then show ?case by simp
next
  case (Cons b batch)
  show ?case
  proof (cases "b = s")
    case True
    have "screenshotId (s\<lparr>status := ShotExpired\<rparr>) \<notin> screenshotId ` set batch"
      using Cons.prems(1) True by auto
    then show ?thesis
      using cleanup_loop_other_rows [of "s\<lparr>status := ShotExpired\<rparr>" batch faults
          "cleanupScreenshot faults st s"]
        cleanupScreenshot_marks [OF Cons.prems(3) assms(4,5)] True
      by simp
  next
    case False
    then have s: "s \<in> set batch" using Cons.prems(2) by simp
    then have "screenshotId s \<in> screenshotId ` set batch" by (rule imageI)
    moreover have "screenshotId b \<notin> screenshotId ` set batch"
      using Cons.prems(1) by simp
    ultimately have "screenshotId s \<noteq> screenshotId b" by metis
    then have "s \<in> set (screenshots (cleanupScreenshot faults st b))"
      using cleanupScreenshot_other_rows [of s b faults st] Cons.prems(3) by simp
    then show ?thesis
      using Cons.IH [OF _ s] Cons.prems(1) by simp
  qed
qed

lemma cleanupScreenshot_deletes:
  assumes "\<not> blobDeleteFails faults t" "\<not> recordDeleteFails faults t"
  shows "screenshotId t \<notin> screenshotIds (cleanupScreenshot faults st t)
       \<and> (bucket t, storageKey t) \<notin> set (blobs (cleanupScreenshot faults st t))"
  using assms
  by (auto simp: cleanupScreenshot_def screenshotIds_def deleteScreenshotRecord_def
      deleteScreenshot_def Let_def)

lemma cleanup_loop_deletes:
  assumes "t \<in> set batch" "\<not> blobDeleteFails faults t" "\<not> recordDeleteFails faults t"
  shows "screenshotId t \<notin> screenshotIds (foldl (cleanupScreenshot faults) st batch)
       \<and> (bucket t, storageKey t) \<notin> set (blobs (foldl (cleanupScreenshot faults) st batch))"
  using assms(1)
proof (induction batch arbitrary: st)
  case Nil
  then show ?case by simp
next
  case (Cons b batch)
  show ?case
  proof (cases "b = t")
    case True
    then show ?thesis
      using cleanupScreenshot_deletes [OF assms(2,3), of st]
        cleanup_loop_ids [of faults "cleanupScreenshot faults st t" batch]
        cleanup_loop_blobs [of faults "cleanupScreenshot faults st t" batch]
      by auto
  next
    case False
    then show ?thesis using Cons by simp
  qed
qed

lemma getExpiredScreenshots_subset:
  "set (getExpiredScreenshots now rows) \<subseteq> set rows"
  by (auto simp: getExpiredScreenshots_def dest: in_set_takeD)

lemma getExpiredScreenshots_completed:
  "r \<in> set (getExpiredScreenshots now rows) \<Longrightarrow> status r = ShotCompleted"
  by (auto simp: getExpiredScreenshots_def dest: in_set_takeD)

lemma getExpiredScreenshots_distinct:
  "distinct (map screenshotId rows) \<Longrightarrow> distinct (map screenshotId (getExpiredScreenshots now rows))"
  by (simp add: getExpiredScreenshots_def distinct_map_filter take_map [symmetric] del: take_map)

lemma distinct_ids_unique:
  "distinct (map screenshotId rows) \<Longrightarrow> a \<in> set rows \<Longrightarrow> b \<in> set rows \<Longrightarrow>
     screenshotId a = screenshotId b \<Longrightarrow> a = b"
  by (auto simp: distinct_map dest: inj_onD)

lemma sweep_marks:
  assumes d: "distinct (map screenshotId (screenshots st))"
    and s: "s \<in> set (getExpiredScreenshots now (screenshots st))"
    and f: "blobDeleteFails faults s" "\<not> statusUpdateFails faults s"
  shows "s\<lparr>status := ShotExpired\<rparr> \<in> set (screenshots (cleanupExpiredScreenshots faults now st))"
    and "\<forall>r \<in> set (screenshots (cleanupExpiredScreenshots faults now st)).
           screenshotId r = screenshotId s \<longrightarrow> status r = ShotExpired"
proof -
  let ?st0 = "st\<lparr>deletedCount := 0, errorCount := 0\<rparr>"
  have "s \<in> set (screenshots ?st0)"
    using s getExpiredScreenshots_subset by auto
  then show m: "s\<lparr>status := ShotExpired\<rparr> \<in> set (screenshots (cleanupExpiredScreenshots faults now st))"
    unfolding cleanupExpiredScreenshots_def
    using cleanup_loop_marks [OF getExpiredScreenshots_distinct [OF d] s _ f, of ?st0] by simp
  have "distinct (map screenshotId (screenshots (cleanupExpiredScreenshots faults now st)))"
    unfolding cleanupExpiredScreenshots_def
    using cleanup_loop_distinct [of ?st0] d by simp
  then show "\<forall>r \<in> set (screenshots (cleanupExpiredScreenshots faults now st)).
           screenshotId r = screenshotId s \<longrightarrow> status r = ShotExpired"
    using distinct_ids_unique [OF _ _ m] by fastforce
qed


lemma demo_batch: "getExpiredScreenshots 100 (screenshots demoStores)
     = [demoShot ''s1'' 10, demoShot ''s2'' 20, demoShot ''s4'' 30]"
  by (simp add: getExpiredScreenshots_def demoStores_def demoShot_def)

lemma demo_sweep: "cleanupExpiredScreenshots demoFaults 100 demoStores
     = \<lparr>screenshots = [(demoShot ''s2'' 20)\<lparr>status := ShotExpired\<rparr>, demoShot ''s3'' 900],
        blobs = [(''screenshots'', ''2024/s2.png''), (''screenshots'', ''2024/s3.png'')],
        deletedCount = 2, errorCount = 1\<rparr>"
  by (simp add: cleanupExpiredScreenshots_def demo_batch)
     (simp add: cleanupScreenshot_def markExpired_def demoFaults_def demoStores_def demoShot_def
       deleteScreenshot_def deleteScreenshotRecord_def updateScreenshotStatus_def)

text \<open>
  Claim C8. In a table whose ids are distinct, let the blob store refuse the deletion of one
  artifact of the batch while the metadata store accepts the status update. After the loop
  that artifact's row is in the table with status \<^verbatim>\<open>expired\<close>, no row with its id is left
  \<^verbatim>\<open>completed\<close>, and every other artifact of the batch whose two deletions succeed is gone
  from the table and from the blob store: the loop went on after the failure.
\<close>

theorem sweep_marks_expired_and_continues:
  assumes "distinct (map screenshotId (screenshots st))"
    and "s \<in> set (getExpiredScreenshots now (screenshots st))"
    and "blobDeleteFails faults s" and "\<not> statusUpdateFails faults s"
  shows "s\<lparr>status := ShotExpired\<rparr> \<in> set (screenshots (cleanupExpiredScreenshots faults now st))
       \<and> (\<forall>r \<in> set (screenshots (cleanupExpiredScreenshots faults now st)).
             screenshotId r = screenshotId s \<longrightarrow> status r = ShotExpired)
       \<and> (\<forall>t \<in> set (getExpiredScreenshots now (screenshots st)).
             \<not> blobDeleteFails faults t \<and> \<not> recordDeleteFails faults t \<longrightarrow>
               screenshotId t \<notin> screenshotIds (cleanupExpiredScreenshots faults now st)
               \<and> (bucket t, storageKey t) \<notin> set (blobs (cleanupExpiredScreenshots faults now st)))"
proof (intro conjI ballI impI)
  show "s\<lparr>status := ShotExpired\<rparr> \<in> set (screenshots (cleanupExpiredScreenshots faults now st))"
    by (rule sweep_marks(1) [OF assms])
next
  fix r
  assume "r \<in> set (screenshots (cleanupExpiredScreenshots faults now st))"
    and "screenshotId r = screenshotId s"
  then show "status r = ShotExpired"
    using sweep_marks(2) [OF assms] by blast
next
  fix t
  assume t: "t \<in> set (getExpiredScreenshots now (screenshots st))"
    and ok: "\<not> blobDeleteFails faults t \<and> \<not> recordDeleteFails faults t"
  from ok have ok1: "\<not> blobDeleteFails faults t" and ok2: "\<not> recordDeleteFails faults t"
    by simp_all
  show "screenshotId t \<notin> screenshotIds (cleanupExpiredScreenshots faults now st)"
    unfolding cleanupExpiredScreenshots_def
    using cleanup_loop_deletes [OF t ok1 ok2] by blast
  show "(bucket t, storageKey t) \<notin> set (blobs (cleanupExpiredScreenshots faults now st))"
    unfolding cleanupExpiredScreenshots_def
    using cleanup_loop_deletes [OF t ok1 ok2] by blast
qed

theorem sweep_marks_expired_and_continues_witness:
  "(demoShot ''s2'' 20)\<lparr>status := ShotExpired\<rparr>
      \<in> set (screenshots (cleanupExpiredScreenshots demoFaults 100 demoStores))
   \<and> ''s1'' \<notin> screenshotIds (cleanupExpiredScreenshots demoFaults 100 demoStores)
   \<and> ''s4'' \<notin> screenshotIds (cleanupExpiredScreenshots demoFaults 100 demoStores)
   \<and> (''screenshots'', ''2024/s4.png'') \<notin> set (blobs (cleanupExpiredScreenshots demoFaults 100 demoStores))"
proof -
  have d: "distinct (map screenshotId (screenshots demoStores))"
    by (simp add: demoStores_def demoShot_def)
  have s: "demoShot ''s2'' 20 \<in> set (getExpiredScreenshots 100 (screenshots demoStores))"
    by (simp add: demo_batch)
  have f: "blobDeleteFails demoFaults (demoShot ''s2'' 20)"
    by (simp add: demoFaults_def demoShot_def)
  have u: "\<not> statusUpdateFails demoFaults (demoShot ''s2'' 20)"
    by (simp add: demoFaults_def)
  show ?thesis
    using sweep_marks_expired_and_continues [OF d s f u]
    by (simp add: demo_batch) (simp add: demoFaults_def demoShot_def)
qed

lemma demo_later_batches:
  "getExpiredScreenshots 200 (screenshots (cleanupExpiredScreenshots demoFaults 100 demoStores)) = []"
  "getExpiredScreenshots 1000 (screenshots (cleanupExpiredScreenshots demoFaults 100 demoStores))
     = [demoShot ''s3'' 900]"
  by (simp_all add: demo_sweep) (simp_all add: getExpiredScreenshots_def demoShot_def)

text \<open>
  Claim C9 does not hold of the code. The artifact \<^verbatim>\<open>s2\<close>, a screenshot of no site
  capture, is in the batch of the run at instant 100, its blob deletion fails, and the run
  marks its row \<^verbatim>\<open>expired\<close> and leaves its blob in the store. The run at instant 200 selects
  nothing and the run at instant 1000 selects only \<^verbatim>\<open>s3\<close>: the selection asks for status
  \<^verbatim>\<open>completed\<close>, so no later run retries the deletion of \<^verbatim>\<open>s2\<close>. The route that deletes a
  screenshot without \<^verbatim>\<open>immediate\<close> sets the same status with the comment
  \<^verbatim>\<open>Mark as expired for cleanup job to handle\<close>.
\<close>

theorem expired_artifact_is_never_retried:
  "demoShot ''s2'' 20 \<in> set (getExpiredScreenshots 100 (screenshots demoStores))
   \<and> blobDeleteFails demoFaults (demoShot ''s2'' 20)
   \<and> (demoShot ''s2'' 20)\<lparr>status := ShotExpired\<rparr>
        \<in> set (screenshots (cleanupExpiredScreenshots demoFaults 100 demoStores))
   \<and> (''screenshots'', ''2024/s2.png'')
        \<in> set (blobs (cleanupExpiredScreenshots demoFaults 100 demoStores))
   \<and> getExpiredScreenshots 200 (screenshots (cleanupExpiredScreenshots demoFaults 100 demoStores)) = []
   \<and> getExpiredScreenshots 1000 (screenshots (cleanupExpiredScreenshots demoFaults 100 demoStores))
        = [demoShot ''s3'' 900]"
proof -
  have selected: "demoShot ''s2'' 20 \<in> set (getExpiredScreenshots 100 (screenshots demoStores))"
    by (simp add: demo_batch)
  have fails: "blobDeleteFails demoFaults (demoShot ''s2'' 20)"
    by (simp add: demoFaults_def demoShot_def)
  have marked: "(demoShot ''s2'' 20)\<lparr>status := ShotExpired\<rparr>
        \<in> set (screenshots (cleanupExpiredScreenshots demoFaults 100 demoStores))"
    by (simp add: demo_sweep)
  have kept: "(''screenshots'', ''2024/s2.png'')
        \<in> set (blobs (cleanupExpiredScreenshots demoFaults 100 demoStores))"
    by (simp add: demo_sweep)
  show ?thesis
    by (intro conjI selected fails marked kept demo_later_batches)
qed

subsection \<open>Render session pool\<close>

text \<open>
  Every piece of the pool's code keeps the bound, except an \<^verbatim>\<open>acquirePage\<close> that runs while
  a release is suspended.
\<close>

lemma poolStep_withinCeiling:
  assumes "withinCeiling m s" and "\<And>c. ev = AcquirePage c \<Longrightarrow> handOffs s = []"
  shows "withinCeiling m (poolStep m s ev)"
proof (cases ev)
  case (AcquirePage c)
  then show ?thesis
    using assms by (auto simp: withinCeiling_def acquirePage_def)
next
  case (ReleasePage c)
  then show ?thesis
    using assms(1)
    by (auto simp: withinCeiling_def releasePage_def Let_def split: list.splits)
next
  case (ResumeRelease n ok)
  have "n \<in> set (handOffs s) \<Longrightarrow> int (length (remove1 n (handOffs s))) + 1 = int (length (handOffs s))"
    by (simp add: length_remove1) (cases "handOffs s"; simp)
  then show ?thesis
    using assms(1) ResumeRelease
    by (auto simp: withinCeiling_def resumeRelease_def Let_def)
next
  case CloseBrowser
  then show ?thesis
    using assms(1) by (simp add: withinCeiling_def closeBrowser_def)
qed

lemma withinCeiling_activePages: "withinCeiling m s \<Longrightarrow> activePages s \<le> m"
  by (simp add: withinCeiling_def)

text \<open>
  Claim C1 does not hold of the code. With \<^verbatim>\<open>maxConcurrentPages = 1\<close>, an
  \<^verbatim>\<open>acquirePage\<close> that runs while a release is suspended between its decrement and its
  increment passes the test \<^verbatim>\<open>activePages < maxConcurrentPages\<close>; when the release resumes
  it increments as well, and \<^verbatim>\<open>activePages\<close> is 2 with two callers holding a page.
\<close>

theorem racing_acquire_exceeds_ceiling:
  "activePages (runPool 1 racingRun) = 2
   \<and> \<not> activePages (runPool 1 racingRun) \<le> 1
   \<and> holding (runPool 1 racingRun) = [2, 1]
   \<and> activePages (runPool 1 (take 3 racingRun)) = 0
   \<and> handOffs (runPool 1 (take 3 racingRun)) = [1]"
  by (simp add: runPool_def racingRun_def initialPool_def acquirePage_def releasePage_def
      resumeRelease_def)

text \<open>
  Claim C6 does not hold of the code. In the same run caller 1 is at the head of the queue
  when caller 0 releases, and caller 2 calls \<^verbatim>\<open>acquirePage\<close> during that release: caller 2
  is counted and served from the freed capacity before caller 1.
\<close>

theorem racing_acquire_overtakes_queue_head:
  "pageQueue (runPool 1 (take 2 racingRun)) = [1]
   \<and> served (runPool 1 (take 4 racingRun)) = [0, 2]
   \<and> handOffs (runPool 1 (take 4 racingRun)) = [1]
   \<and> served (runPool 1 racingRun) = [0, 2, 1]"
  by (simp add: runPool_def racingRun_def initialPool_def acquirePage_def releasePage_def
      resumeRelease_def)

subsection \<open>Site crawl orchestrator\<close>

lemma inCapture_update:
  "i < length ws \<Longrightarrow>
     inCapture (ws[i := y]) + capturedEntry (ws ! i) = inCapture ws + capturedEntry y"
  unfolding inCapture_def
proof (induction ws arbitrary: i)
  case Nil
  then show ?case by simp
next
  case (Cons a ws)
  then show ?case by (cases i) (auto simp: ac_simps)
qed

lemma inCapture_none: "\<forall>w \<in> set ws. w = Returned \<Longrightarrow> inCapture ws = {#}"
  by (induction ws) (auto simp: inCapture_def capturedEntry_def)

lemma set_update_other:
  "x \<in> set xs \<Longrightarrow> i < length xs \<Longrightarrow> xs ! i \<noteq> x \<Longrightarrow> x \<in> set (xs[i := y])"
proof (induction xs arbitrary: i)
  case Nil
  then show ?case by simp
next
  case (Cons a xs)
  then show ?case by (cases i) auto
qed

lemma set_update_new: "x \<in> set (xs[i := y]) \<Longrightarrow> x \<noteq> y \<Longrightarrow> x \<in> set xs"
  using set_update_subset_insert [of xs i y] by auto

lemma counters_sum:
  "length (filter snd os) + length (filter (\<lambda>outcome. \<not> snd outcome) os) = length os"
  by (induction os) auto

lemma spawnWorker_inv: "crawlInv urlList s \<Longrightarrow> crawlInv urlList (spawnWorker s)"
  by (cases "queue s")
     (auto simp: crawlInv_def spawnWorker_def enterLoop_def inCapture_def capturedEntry_def)

lemma spawnWorker_length: "length (workers (spawnWorker s)) = Suc (length (workers s))"
  by (cases "queue s") (auto simp: spawnWorker_def enterLoop_def)

lemma startWorkers_inv: "crawlInv urlList (startWorkers n urlList)"
  unfolding startWorkers_def
proof (induction n)
  case 0
  show ?case
    by (simp add: crawlInv_def inCapture_def createSiteCapture_def)
next
  case (Suc n)
  then show ?case by (simp add: spawnWorker_inv)
qed

lemma startWorkers_length: "length (workers (startWorkers n urlList)) = n"
  unfolding startWorkers_def
  by (induction n) (simp_all add: spawnWorker_length)

lemma captureSettled_inv:
  assumes inv: "crawlInv urlList s"
  shows "crawlInv urlList (captureSettled w success s)"
proof (cases "w < length (workers s)")
  case False
  then show ?thesis using inv by (simp add: captureSettled_def)
next
  case w: True
  show ?thesis
  proof (cases "workers s ! w")
    case (Capturing e)
    define c where "c = (if success then capturedCount s + 1 else capturedCount s)"
    define f where "f = (if success then failedCount s else failedCount s + 1)"
    let ?ws = "(workers s)[w := Updating c f]"
    have step: "captureSettled w success s
                  = s\<lparr>capturedCount := c, failedCount := f,
                      outcomes := outcomes s @ [(e, success)], workers := ?ws\<rparr>"
      using w Capturing by (simp add: captureSettled_def c_def f_def Let_def)
    have cap: "inCapture ?ws + {#e#} = inCapture (workers s)"
      using inCapture_update [OF w, of "Updating c f"] Capturing
      by (simp add: capturedEntry_def)
    have ret: "Returned \<in> set ?ws \<Longrightarrow> Returned \<in> set (workers s)"
      using set_update_new [of Returned "workers s" w "Updating c f"] by simp
    have sum: "c + f = Suc (length (outcomes s))"
      using inv counters_sum [of "outcomes s"] by (auto simp: crawlInv_def c_def f_def)
    have flight: "\<And>c' f'. Updating c' f' \<in> set ?ws \<Longrightarrow> c' + f' \<le> Suc (length (outcomes s))"
    proof -
      fix c' f'
      assume a: "Updating c' f' \<in> set ?ws"
      show "c' + f' \<le> Suc (length (outcomes s))"
      proof (cases "Updating c' f' = Updating c f")
        case True
        then show ?thesis using sum by simp
      next
        case False
        then have "Updating c' f' \<in> set (workers s)"
          using set_update_new [OF a] by simp
        then have "c' + f' \<le> length (outcomes s)"
          using inv unfolding crawlInv_def by blast
        then show ?thesis by simp
      qed
    qed
    have "mset (map fst (outcomes s)) + {#e#} + inCapture ?ws
            = mset (map fst (outcomes s)) + (inCapture ?ws + {#e#})"
      by simp
    also have "\<dots> = mset (map fst (outcomes s)) + inCapture (workers s)"
      by (simp only: cap)
    also have "\<dots> = mset (processed s)"
      using inv by (simp add: crawlInv_def)
    finally have mset: "mset (map fst (outcomes s)) + {#e#} + inCapture ?ws = mset (processed s)" .
    show ?thesis
      unfolding step crawlInv_def
      using inv ret flight mset
      by (auto simp: crawlInv_def c_def f_def)
  next
    case (Updating c f)
    then show ?thesis using inv w by (simp add: captureSettled_def)
  next
    case (Answered ok)
    then show ?thesis using inv w by (simp add: captureSettled_def)
  next
    case Returned
    then show ?thesis using inv w by (simp add: captureSettled_def)
  next
    case Thrown
    then show ?thesis using inv w by (simp add: captureSettled_def)
  qed
qed

lemma storeAnswers_inv:
  assumes inv: "crawlInv urlList s"
  shows "crawlInv urlList (storeAnswers w executed s)"
proof (cases "w < length (workers s)")
  case False
  then show ?thesis using inv by (simp add: storeAnswers_def)
next
  case w: True
  show ?thesis
  proof (cases "workers s ! w")
    case (Updating c f)
    let ?ws = "(workers s)[w := Answered executed]"
    have "Updating c f \<in> set (workers s)"
      using w Updating nth_mem by metis
    then have cf: "c + f \<le> length (outcomes s)"
      using inv by (auto simp: crawlInv_def)
    have cap: "inCapture ?ws = inCapture (workers s)"
      using inCapture_update [OF w, of "Answered executed"] Updating
      by (simp add: capturedEntry_def)
    have ret: "Returned \<in> set ?ws \<Longrightarrow> Returned \<in> set (workers s)"
      using set_update_new [of Returned "workers s" w "Answered executed"] by simp
    have flight: "\<And>c' f'. Updating c' f' \<in> set ?ws \<Longrightarrow> Updating c' f' \<in> set (workers s)"
      using set_update_new [of _ "workers s" w "Answered executed"] by simp
    show ?thesis
      using inv w Updating cf cap ret flight
      unfolding crawlInv_def storeAnswers_def Let_def
      by (cases executed) auto
  next
    case (Capturing e)
    then show ?thesis using inv w by (simp add: storeAnswers_def)
  next
    case (Answered ok)
    then show ?thesis using inv w by (simp add: storeAnswers_def)
  next
    case Returned
    then show ?thesis using inv w by (simp add: storeAnswers_def)
  next
    case Thrown
    then show ?thesis using inv w by (simp add: storeAnswers_def)
  qed
qed

lemma updateSettled_inv:
  assumes inv: "crawlInv urlList s"
  shows "crawlInv urlList (updateSettled w s)"
proof (cases "w < length (workers s)")
  case False
  then show ?thesis using inv by (simp add: updateSettled_def)
next
  case w: True
  show ?thesis
  proof (cases "workers s ! w")
    case (Capturing e)
    then show ?thesis using inv by (simp add: updateSettled_def)
  next
    case (Updating c f)
    then show ?thesis using inv by (simp add: updateSettled_def)
  next
    case Returned
    then show ?thesis using inv by (simp add: updateSettled_def)
  next
    case Thrown
    then show ?thesis using inv by (simp add: updateSettled_def)
  next
    case (Answered ok)
    have older: "\<And>x y. x \<in> set ((workers s)[w := y]) \<Longrightarrow> x \<noteq> y \<Longrightarrow> x \<in> set (workers s)"
      by (rule set_update_new)
    have cap: "\<And>y. inCapture ((workers s)[w := y]) = inCapture (workers s) + capturedEntry y"
      using inCapture_update [OF w] Answered by (simp add: capturedEntry_def)
    have flight: "\<And>c f y. Updating c f \<in> set ((workers s)[w := y]) \<Longrightarrow> isCapturing y \<or> y = Returned \<or> y = Thrown
                    \<Longrightarrow> c + f \<le> length (outcomes s)"
    proof -
      fix c f y
      assume a: "Updating c f \<in> set ((workers s)[w := y])"
        and y: "isCapturing y \<or> y = Returned \<or> y = Thrown"
      have "Updating c f \<noteq> y" using y by (auto simp: isCapturing_def)
      from older [OF a this] show "c + f \<le> length (outcomes s)"
        using inv by (auto simp: crawlInv_def)
    qed
    show ?thesis
    proof (cases ok)
      case False
      have "Returned \<in> set ((workers s)[w := Thrown]) \<Longrightarrow> Returned \<in> set (workers s)"
        using older [of Returned Thrown] by simp
      then show ?thesis
        using inv Answered False w cap [of Thrown] flight [of _ _ Thrown]
        unfolding crawlInv_def updateSettled_def
        by (auto simp: capturedEntry_def)
    next
      case True
      show ?thesis
      proof (cases "queue s")
        case Nil
        then show ?thesis
          using inv Answered True w cap [of Returned] flight [of _ _ Returned]
          unfolding crawlInv_def updateSettled_def enterLoop_def
          by (auto simp: capturedEntry_def)
      next
        case (Cons e rest)
        have "Returned \<notin> set (workers s)"
          using inv Cons by (auto simp: crawlInv_def)
        then have "Returned \<notin> set ((workers s)[w := Capturing e])"
          using older [of Returned "Capturing e"] by auto
        then show ?thesis
          using inv Answered True w Cons cap [of "Capturing e"] flight [of _ _ "Capturing e"]
          unfolding crawlInv_def updateSettled_def enterLoop_def
          by (auto simp: capturedEntry_def isCapturing_def)
      qed
    qed
  qed
qed

lemma crawlStep_inv: "crawlInv urlList s \<Longrightarrow> crawlInv urlList (crawlStep s ev)"
  by (cases ev) (simp_all add: captureSettled_inv storeAnswers_inv updateSettled_inv)

lemma crawlStep_length: "length (workers (crawlStep s ev)) = length (workers s)"
  by (cases ev)
     (auto simp: captureSettled_def storeAnswers_def updateSettled_def enterLoop_def Let_def
       split: list.splits Worker.splits)

lemma crawl_inv: "crawlInv urlList (crawl n urlList events)"
proof -
  have "crawlInv urlList s \<Longrightarrow> crawlInv urlList (foldl crawlStep s events)" for s
    by (induction events arbitrary: s) (simp_all add: crawlStep_inv)
  then show ?thesis
    unfolding crawl_def using startWorkers_inv by blast
qed

lemma crawl_length: "length (workers (crawl n urlList events)) = n"
proof -
  have "length (workers (foldl crawlStep s events)) = length (workers s)" for s
    by (induction events arbitrary: s) (simp_all add: crawlStep_length)
  then show ?thesis
    unfolding crawl_def by (simp add: startWorkers_length)
qed


text \<open>
  When every worker has returned, the queue is empty, every entry of the list was handed to
  \<^verbatim>\<open>processUrl\<close> once and has one outcome, and the two counters add up to the length of
  the list.
\<close>

lemma drained:
  assumes n: "1 \<le> n" and all: "\<forall>w \<in> set (workers (crawl n urlList events)). w = Returned"
  shows "queue (crawl n urlList events) = []"
    and "processed (crawl n urlList events) = urlList"
    and "mset (map fst (outcomes (crawl n urlList events))) = mset urlList"
    and "capturedCount (crawl n urlList events) + failedCount (crawl n urlList events)
           = length urlList"
proof -
  let ?s = "crawl n urlList events"
  have inv: "crawlInv urlList ?s" by (rule crawl_inv)
  have "workers ?s \<noteq> []" using crawl_length [of n urlList events] n by auto
  then obtain w where "w \<in> set (workers ?s)" by (cases "workers ?s") auto
  with all have r: "Returned \<in> set (workers ?s)" by auto
  then show q: "queue ?s = []" using inv by (simp add: crawlInv_def)
  then show p: "processed ?s = urlList" using inv by (simp add: crawlInv_def)
  show m: "mset (map fst (outcomes ?s)) = mset urlList"
    using inv p inCapture_none [OF all] by (simp add: crawlInv_def)
  have "length (outcomes ?s) = length urlList"
    using arg_cong [OF m, of size] by simp
  then show "capturedCount ?s + failedCount ?s = length urlList"
    using inv counters_sum [of "outcomes ?s"] by (simp add: crawlInv_def)
qed

lemma counters_are_outcomes:
  "capturedCount (crawl n urlList events)
     = length (filter snd (outcomes (crawl n urlList events)))"
  "failedCount (crawl n urlList events)
     = length (filter (\<lambda>outcome. \<not> snd outcome) (outcomes (crawl n urlList events)))"
  using crawl_inv [of urlList n events] by (simp_all add: crawlInv_def)


lemma resolved_run:
  assumes "processSiteCapture n urlList events completed marked = (Resolved, row)"
  shows "\<forall>w \<in> set (workers (crawl n urlList events)). w = Returned"
    and "row = (job (crawl n urlList events))
                 \<lparr>siteStatus := (if 0 < capturedCount (crawl n urlList events)
                                  then SiteCompleted else SiteFailed)\<rparr>"
  using assms
  by (auto simp: processSiteCapture_def Let_def split: if_splits)

text \<open>
  A crawl in which no update fails can always be brought to the end: every worker that has
  not returned is waiting for an event, and each event reduces the work left. So for every
  number of workers and every list there are events after which the task resolves.
\<close>

lemma pendingSteps_update:
  "i < length ws \<Longrightarrow>
     sum_list (map pendingSteps (ws[i := y])) + pendingSteps (ws ! i)
       = sum_list (map pendingSteps ws) + pendingSteps y"
proof (induction ws arbitrary: i)
  case Nil
  then show ?case by simp
next
  case (Cons a ws)
  then show ?case by (cases i) auto
qed

lemma pick_worker:
  assumes "noUpdateFailed s" and "\<not> (\<forall>w \<in> set (workers s). w = Returned)"
  shows "\<exists>i < length (workers s).
           0 < pendingSteps (workers s ! i)"
proof -
  from assms(2) obtain w where w: "w \<in> set (workers s)" "w \<noteq> Returned" by auto
  then obtain i where i: "i < length (workers s)" "workers s ! i = w"
    by (auto simp: in_set_conv_nth)
  have "0 < pendingSteps w"
  proof (cases w)
    case (Answered ok)
    then have "ok" using w(1) assms(1) by (cases ok) (auto simp: noUpdateFailed_def)
    with Answered show ?thesis by (simp add: pendingSteps_def)
  next
    case Returned
    with w(2) show ?thesis by simp
  next
    case Thrown
    with w(1) assms(1) show ?thesis by (simp add: noUpdateFailed_def)
  qed (simp_all add: pendingSteps_def)
  with i show ?thesis by auto
qed

lemma worker_progress:
  assumes i: "i < length (workers s)" and p: "0 < pendingSteps (workers s ! i)"
    and h: "noUpdateFailed s"
  shows "\<exists>ev. noUpdateFailed (crawlStep s ev) \<and> remainingWork (crawlStep s ev) < remainingWork s"
proof (cases "workers s ! i")
  case (Capturing e)
  let ?y = "Updating (Suc (capturedCount s)) (failedCount s)"
  have step: "captureSettled i True s
                = s\<lparr>capturedCount := Suc (capturedCount s),
                    outcomes := outcomes s @ [(e, True)], workers := (workers s)[i := ?y]\<rparr>"
    using i Capturing by (simp add: captureSettled_def Let_def)
  have "\<And>x. x \<in> set ((workers s)[i := ?y]) \<Longrightarrow> x \<noteq> ?y \<Longrightarrow> x \<in> set (workers s)"
    by (rule set_update_new)
  then have "noUpdateFailed (captureSettled i True s)"
    using h unfolding step noUpdateFailed_def by auto
  moreover have "remainingWork (captureSettled i True s) < remainingWork s"
    using pendingSteps_update [OF i, of ?y] Capturing
    unfolding step remainingWork_def by (simp add: pendingSteps_def)
  ultimately show ?thesis
    using crawlStep.simps(1) [of s i True] by metis
next
  case (Updating c f)
  let ?y = "Answered True"
  have step: "storeAnswers i True s
                = s\<lparr>job := (job s)\<lparr>capturedPages := c, failedPages := f\<rparr>,
                    workers := (workers s)[i := ?y]\<rparr>"
    using i Updating by (simp add: storeAnswers_def Let_def)
  have "\<And>x. x \<in> set ((workers s)[i := ?y]) \<Longrightarrow> x \<noteq> ?y \<Longrightarrow> x \<in> set (workers s)"
    by (rule set_update_new)
  then have "noUpdateFailed (storeAnswers i True s)"
    using h unfolding step noUpdateFailed_def by auto
  moreover have "remainingWork (storeAnswers i True s) < remainingWork s"
    using pendingSteps_update [OF i, of ?y] Updating
    unfolding step remainingWork_def by (simp add: pendingSteps_def)
  ultimately show ?thesis
    using crawlStep.simps(2) [of s i True] by metis
next
  case (Answered ok)
  then have u: "workers s ! i = Answered True"
    using p by (cases ok) (simp_all add: pendingSteps_def)
  have older: "\<And>x y. x \<in> set ((workers s)[i := y]) \<Longrightarrow> x \<noteq> y \<Longrightarrow> x \<in> set (workers s)"
    by (rule set_update_new)
  have "noUpdateFailed (updateSettled i s) \<and> remainingWork (updateSettled i s) < remainingWork s"
  proof (cases "queue s")
    case Nil
    then show ?thesis
      using i u h older [of _ Returned] pendingSteps_update [OF i, of Returned]
      unfolding noUpdateFailed_def remainingWork_def updateSettled_def enterLoop_def
      by (auto simp: pendingSteps_def)
  next
    case (Cons e rest)
    then show ?thesis
      using i u h older [of _ "Capturing e"] pendingSteps_update [OF i, of "Capturing e"]
      unfolding noUpdateFailed_def remainingWork_def updateSettled_def enterLoop_def
      by (auto simp: pendingSteps_def)
  qed
  then show ?thesis
    using crawlStep.simps(3) [of s i] by metis
next
  case Returned
  with p show ?thesis by (simp add: pendingSteps_def)
next
  case Thrown
  with p show ?thesis by (simp add: pendingSteps_def)
qed

lemma crawl_can_drain:
  "noUpdateFailed s \<Longrightarrow>
     \<exists>events. noUpdateFailed (foldl crawlStep s events)
            \<and> (\<forall>w \<in> set (workers (foldl crawlStep s events)). w = Returned)"
proof (induction "remainingWork s" arbitrary: s rule: less_induct)
  case less
  show ?case
  proof (cases "\<forall>w \<in> set (workers s). w = Returned")
    case True
    then have "noUpdateFailed (foldl crawlStep s []) \<and>
               (\<forall>w \<in> set (workers (foldl crawlStep s [])). w = Returned)"
      using less.prems by simp
    then show ?thesis by blast
  next
    case False
    from pick_worker [OF less.prems False]
    obtain i where i: "i < length (workers s)" "0 < pendingSteps (workers s ! i)" by blast
    from worker_progress [OF i less.prems]
    obtain ev where ev: "noUpdateFailed (crawlStep s ev)"
      "remainingWork (crawlStep s ev) < remainingWork s" by blast
    from less.hyps [OF ev(2) ev(1)]
    obtain events where "noUpdateFailed (foldl crawlStep (crawlStep s ev) events)
        \<and> (\<forall>w \<in> set (workers (foldl crawlStep (crawlStep s ev) events)). w = Returned)"
      by blast
    then have "noUpdateFailed (foldl crawlStep s (ev # events))
        \<and> (\<forall>w \<in> set (workers (foldl crawlStep s (ev # events))). w = Returned)"
      by simp
    then show ?thesis by blast
  qed
qed

lemma spawnWorker_noUpdateFailed: "noUpdateFailed s \<Longrightarrow> noUpdateFailed (spawnWorker s)"
  by (cases "queue s") (auto simp: noUpdateFailed_def spawnWorker_def enterLoop_def)

lemma startWorkers_noUpdateFailed: "noUpdateFailed (startWorkers n urlList)"
  unfolding startWorkers_def
  by (induction n) (simp_all add: spawnWorker_noUpdateFailed, simp add: noUpdateFailed_def)

lemma crawl_can_resolve:
  "\<exists>events row. processSiteCapture n urlList events True marked = (Resolved, row)"
proof -
  from crawl_can_drain [OF startWorkers_noUpdateFailed, of n urlList]
  obtain events where "noUpdateFailed (crawl n urlList events)"
    and "\<forall>w \<in> set (workers (crawl n urlList events)). w = Returned"
    unfolding crawl_def by blast
  then have "fst (processSiteCapture n urlList events True marked) = Resolved"
    by (auto simp: processSiteCapture_def Let_def noUpdateFailed_def)
  then show ?thesis by (metis prod.collapse)
qed


lemma demo_crawl: "crawl 2 demoUrls demoEvents
     = \<lparr>queue = [], capturedCount = 1, failedCount = 3, workers = [Returned, Returned],
        job = \<lparr>totalPages = 4, capturedPages = 1, failedPages = 3, siteStatus = SiteProcessing\<rparr>,
        processed = demoUrls,
        outcomes = [(demoUrls ! 1, False), (demoUrls ! 0, False), (demoUrls ! 3, False),
                    (demoUrls ! 2, True)]\<rparr>"
  by code_simp

lemma demo_resolved: "processSiteCapture 2 demoUrls demoEvents True True
     = (Resolved, \<lparr>totalPages = 4, capturedPages = 1, failedPages = 3, siteStatus = SiteCompleted\<rparr>)"
  by (simp add: processSiteCapture_def demo_crawl)

lemma demo_all_failed: "processSiteCapture 2 (take 2 demoUrls)
       [CaptureSettled 0 False, CaptureSettled 1 False, StoreAnswers 0 True, StoreAnswers 1 True,
        UpdateSettled 1, UpdateSettled 0] True True
     = (Resolved, \<lparr>totalPages = 2, capturedPages = 0, failedPages = 2, siteStatus = SiteFailed\<rparr>)"
  by code_simp

lemma demo_all_failed_crawl: "capturedCount (crawl 2 (take 2 demoUrls)
       [CaptureSettled 0 False, CaptureSettled 1 False, StoreAnswers 0 True, StoreAnswers 1 True,
        UpdateSettled 1, UpdateSettled 0]) = 0"
  by code_simp




text \<open>
  Claim C5. When the workers have drained the queue and nothing has thrown, the status
  written is \<^verbatim>\<open>completed\<close> exactly when \<^verbatim>\<open>capturedCount\<close> is positive and \<^verbatim>\<open>failed\<close>
  exactly when it is zero. \<^verbatim>\<open>capturedCount\<close> is the number of calls of \<^verbatim>\<open>processUrl\<close>
  that returned \<^verbatim>\<open>true\<close>, so it is positive exactly when at least one entry succeeded,
  however many failed; with at least one worker the entries with an outcome are those of
  the list.
\<close>

theorem final_status_completed_iff_captured:
  assumes "processSiteCapture concurrency urlList events completed marked = (Resolved, row)"
  shows "(siteStatus row = SiteCompleted \<longleftrightarrow> 0 < capturedCount (crawl concurrency urlList events))
       \<and> (siteStatus row = SiteFailed \<longleftrightarrow> capturedCount (crawl concurrency urlList events) = 0)
       \<and> capturedCount (crawl concurrency urlList events)
           = length (filter snd (outcomes (crawl concurrency urlList events)))
       \<and> (0 < capturedCount (crawl concurrency urlList events)
            \<longleftrightarrow> (\<exists>outcome \<in> set (outcomes (crawl concurrency urlList events)). snd outcome))
       \<and> (1 \<le> concurrency \<longrightarrow>
            mset (map fst (outcomes (crawl concurrency urlList events))) = mset urlList)"
proof -
  note r = resolved_run [OF assms]
  note c = counters_are_outcomes [of concurrency urlList events]
  have some: "0 < capturedCount (crawl concurrency urlList events)
            \<longleftrightarrow> (\<exists>outcome \<in> set (outcomes (crawl concurrency urlList events)). snd outcome)"
    unfolding c(1) by (simp add: filter_empty_conv)
  have all: "1 \<le> concurrency \<longrightarrow>
            mset (map fst (outcomes (crawl concurrency urlList events))) = mset urlList"
    using drained(3) [OF _ r(1)] by blast
  show ?thesis
    using some all c(1) by (simp add: r(2))
qed

theorem final_status_completed_iff_captured_witness:
  "processSiteCapture 2 demoUrls demoEvents True True
     = (Resolved, \<lparr>totalPages = 4, capturedPages = 1, failedPages = 3, siteStatus = SiteCompleted\<rparr>)
   \<and> capturedCount (crawl 2 demoUrls demoEvents) = 1
   \<and> failedCount (crawl 2 demoUrls demoEvents) = 3
   \<and> processSiteCapture 2 (take 2 demoUrls)
         [CaptureSettled 0 False, CaptureSettled 1 False, StoreAnswers 0 True,
          StoreAnswers 1 True, UpdateSettled 1, UpdateSettled 0] True True
       = (Resolved, \<lparr>totalPages = 2, capturedPages = 0, failedPages = 2, siteStatus = SiteFailed\<rparr>)
   \<and> capturedCount (crawl 2 (take 2 demoUrls)
         [CaptureSettled 0 False, CaptureSettled 1 False, StoreAnswers 0 True,
          StoreAnswers 1 True, UpdateSettled 1, UpdateSettled 0]) = 0"
  using final_status_completed_iff_captured [of 2 demoUrls demoEvents True True
      "\<lparr>totalPages = 4, capturedPages = 1, failedPages = 3, siteStatus = SiteCompleted\<rparr>"]
    final_status_completed_iff_captured [of 2 "take 2 demoUrls"
      "[CaptureSettled 0 False, CaptureSettled 1 False, StoreAnswers 0 True,
        StoreAnswers 1 True, UpdateSettled 1, UpdateSettled 0]" True True
      "\<lparr>totalPages = 2, capturedPages = 0, failedPages = 2, siteStatus = SiteFailed\<rparr>"]
    demo_resolved demo_all_failed
  by (simp add: demo_crawl demo_all_failed_crawl)

end
